theory Spec2Isabelle
  imports Main "HOL-Library.Sublist"
begin

section \<open>Python strings\<close>

text \<open>
  A Python \<open>str\<close> is a sequence of Unicode code points.  The wide/narrow test of the
  program looks at code points above the byte range, so a character is modelled by its
  code point (\<open>ord(ch)\<close>) and a string by the list of its code points.  \<open>u\<close> embeds an
  ASCII literal.
\<close>

type_synonym uchar = nat
type_synonym ustr = "uchar list"

definition u :: "string \<Rightarrow> ustr" where
  "u s = map of_char s"

definition NL :: uchar where "NL = 10"        \<comment> \<open>\<open>"\n"\<close>\<close>
definition CR :: uchar where "CR = 13"        \<comment> \<open>\<open>"\r"\<close>\<close>
definition SP :: uchar where "SP = 32"        \<comment> \<open>\<open>" "\<close>\<close>
definition BSL :: uchar where "BSL = 92"      \<comment> \<open>the backslash\<close>
definition FULLWIDTH_SPACE :: uchar where "FULLWIDTH_SPACE = 0x3000"
definition BULLET :: uchar where "BULLET = 0x30FB"   \<comment> \<open>the katakana middle dot\<close>

text \<open>
  \<open>str.isspace\<close> for one character; it is also what \<open>\s\<close> matches in a \<open>str\<close> pattern and
  what \<open>strip()\<close>, \<open>rstrip()\<close> remove (CPython's \<open>Py_UNICODE_ISSPACE\<close>).
\<close>

definition is_space :: "uchar \<Rightarrow> bool" where
  "is_space c \<longleftrightarrow>
     (9 \<le> c \<and> c \<le> 13) \<or> (28 \<le> c \<and> c \<le> 32) \<or> c = 0x85 \<or> c = 0xA0 \<or> c = 0x1680 \<or>
     (0x2000 \<le> c \<and> c \<le> 0x200A) \<or> c = 0x2028 \<or> c = 0x2029 \<or> c = 0x202F \<or>
     c = 0x205F \<or> c = 0x3000"

definition lstrip :: "ustr \<Rightarrow> ustr" where
  "lstrip s = dropWhile is_space s"

definition rstrip :: "ustr \<Rightarrow> ustr" where
  "rstrip s = rev (dropWhile is_space (rev s))"

definition strip :: "ustr \<Rightarrow> ustr" where
  "strip s = rstrip (lstrip s)"

text \<open>\<open>s.lstrip(chars)\<close>: drop the leading characters that occur in \<open>chars\<close>.\<close>

definition lstrip_chars :: "ustr \<Rightarrow> ustr \<Rightarrow> ustr" where
  "lstrip_chars chars s = dropWhile (\<lambda>c. c \<in> set chars) s"

text \<open>
  \<open>s.replace(old, new)\<close> for a non-empty \<open>old\<close> (the program only uses non-empty ones):
  the occurrences are found from the left and do not overlap.
\<close>

function replace :: "ustr \<Rightarrow> ustr \<Rightarrow> ustr \<Rightarrow> ustr" where
  "replace old new [] = []"
| "replace old new (c # cs) =
     (if old \<noteq> [] \<and> prefix old (c # cs)
      then new @ replace old new (drop (length old) (c # cs))
      else c # replace old new cs)"
  by pat_completeness auto
termination
  by (relation "measure (\<lambda>(old, new, s). length s)") auto

text \<open>\<open>s.split("\n")\<close>: the pieces between the line feeds; never empty.\<close>

fun split_nl :: "ustr \<Rightarrow> ustr list" where
  "split_nl [] = [[]]"
| "split_nl (c # cs) =
     (if c = NL then [] # split_nl cs
      else (case split_nl cs of l # ls \<Rightarrow> (c # l) # ls | [] \<Rightarrow> [[c]]))"

text \<open>\<open>"\n".join(xs)\<close>.\<close>

fun join_nl :: "ustr list \<Rightarrow> ustr" where
  "join_nl [] = []"
| "join_nl [x] = x"
| "join_nl (x # y # ys) = x @ NL # join_nl (y # ys)"

section \<open>Width model and line wrapper\<close>

definition is_fullwidth :: "uchar \<Rightarrow> bool" where
  "is_fullwidth o' \<longleftrightarrow>
     (0x3000 \<le> o' \<and> o' \<le> 0x30FF) \<or> (0x3400 \<le> o' \<and> o' \<le> 0x9FFF) \<or>
     (0xFF01 \<le> o' \<and> o' \<le> 0xFF60) \<or> (0xFFE0 \<le> o' \<and> o' \<le> 0xFFE6)"

text \<open>The width \<open>w\<close> the wrapper charges for one character, and the width sum of a line.\<close>

definition char_width :: "uchar \<Rightarrow> int" where
  "char_width ch = (if is_fullwidth ch then 2 else 1)"

definition line_width :: "ustr \<Rightarrow> int" where
  "line_width s = sum_list (map char_width s)"

text \<open>
  \<open>re.sub(r"(?m)\\\s*$", "\n", text)\<close>.  A match starts at a backslash and takes white space
  after it, greedily, up to a place where \<open>$\<close> holds: the end of the text, or (multi-line
  mode) just before a line feed.  \<open>\s\<close> takes line feeds too, so with the white-space run
  \<open>ws\<close> after the backslash the match ends at the end of the text when the run reaches it,
  otherwise just before the last line feed of \<open>ws\<close>; with no line feed in \<open>ws\<close> there is no
  match at this backslash.  The search goes on where the match ended.
\<close>

definition before_last_nl :: "ustr \<Rightarrow> ustr" where
  "before_last_nl ws = rev (tl (dropWhile (\<lambda>c. c \<noteq> NL) (rev ws)))"

function sub_trailing_backslash :: "ustr \<Rightarrow> ustr" where
  "sub_trailing_backslash [] = []"
| "sub_trailing_backslash (c # cs) =
     (if c = BSL then
        (let ws = takeWhile is_space cs in
         if dropWhile is_space cs = [] then [NL]
         else if NL \<in> set ws
           then NL # sub_trailing_backslash (drop (length (before_last_nl ws)) cs)
           else c # sub_trailing_backslash cs)
      else c # sub_trailing_backslash cs)"
  by pat_completeness auto
termination
  by (relation "measure length") auto

text \<open>The three substitutions at the head of \<open>wrap_text_to_cols\<close>.\<close>

definition preprocess :: "ustr \<Rightarrow> ustr" where
  "preprocess text =
     sub_trailing_backslash (replace [BSL, BSL] [NL] (replace (u ''<br>'') [NL] text))"

text \<open>
  The inner loop \<open>for ch in para\<close> with its variables \<open>out\<close>, \<open>line\<close>, \<open>wsum\<close>; the value is
  \<open>out\<close> after the \<open>out.append(line)\<close> that follows the loop.
\<close>

fun wrap_chars :: "int \<Rightarrow> ustr list \<Rightarrow> ustr \<Rightarrow> int \<Rightarrow> ustr \<Rightarrow> ustr list" where
  "wrap_chars cols out line wsum [] = out @ [line]"
| "wrap_chars cols out line wsum (ch # rest) =
     (let w = (if is_fullwidth ch then 2 else 1) in
      if wsum + w > cols then
        (if ch = SP then wrap_chars cols (out @ [line]) [] 0 rest
         else wrap_chars cols (out @ [line]) [ch] w rest)
      else wrap_chars cols out (line @ [ch]) (wsum + w) rest)"

text \<open>One turn of the outer loop \<open>for para in text.split("\n")\<close>.\<close>

definition wrap_para :: "int \<Rightarrow> ustr list \<Rightarrow> ustr \<Rightarrow> ustr list" where
  "wrap_para cols out para = (if para = [] then out @ [[]] else wrap_chars cols out [] 0 para)"

definition wrap_text_to_cols :: "ustr \<Rightarrow> int \<Rightarrow> ustr list" where
  "wrap_text_to_cols text cols = foldl (wrap_para cols) [] (split_nl (preprocess text))"

section \<open>Block parser\<close>

datatype kind = Pagebreak | H2 | LI | P

text \<open>A block is the dictionary \<open>{"type": ..., "text": ...}\<close>.\<close>

record block =
  blk_type :: kind
  blk_text :: ustr

text \<open>
  \<open>H2_RE\<close> is \<open>^\s*(?:[##']{2}|[0-9 0'-9']+[\. .' )])\s*\<close>, where the primed characters stand
  for the full-width forms (U+FF03, U+FF10 to U+FF19, U+FF0E) of the character before
  them.  No white-space character is in one of the classes, so the
  greedy \<open>\s*\<close> and the greedy digit run can only match their whole run.  \<open>h2_match\<close> gives
  \<open>H2_RE.sub("", line)\<close> when \<open>H2_RE.match(line)\<close> succeeds: the pattern is anchored, so the
  substitution removes the matched prefix only.
\<close>

definition is_hash :: "uchar \<Rightarrow> bool" where
  "is_hash c \<longleftrightarrow> c = 0x23 \<or> c = 0xFF03"

definition is_digit :: "uchar \<Rightarrow> bool" where
  "is_digit c \<longleftrightarrow> (0x30 \<le> c \<and> c \<le> 0x39) \<or> (0xFF10 \<le> c \<and> c \<le> 0xFF19)"

definition is_num_end :: "uchar \<Rightarrow> bool" where
  "is_num_end c \<longleftrightarrow> c = 0x2E \<or> c = 0xFF0E \<or> c = 0x29"

definition h2_match :: "ustr \<Rightarrow> ustr option" where
  "h2_match line =
     (let s = dropWhile is_space line in
      case s of
        a # b # r \<Rightarrow>
          if is_hash a \<and> is_hash b then Some (dropWhile is_space r)
          else (case dropWhile is_digit s of
                  e # r' \<Rightarrow> if is_digit a \<and> is_num_end e then Some (dropWhile is_space r')
                            else None
                | [] \<Rightarrow> None)
      | _ \<Rightarrow> None)"

text \<open>
  \<open>LI_RE\<close> is \<open>^\s*(?:[...])\s*(.*)$\<close>, the class holding the hyphen, the asterisk, their
  full-width forms (U+FF0D, U+FF0A), the katakana middle dot (U+30FB) and the bullet
  (U+2022); \<open>li_match\<close> gives group 1 of the match.
  It is applied to the elements of \<open>src.split("\n")\<close>, which hold no line feed, so \<open>(.*)$\<close>
  takes all that is left after the white space.
\<close>

definition is_bullet :: "uchar \<Rightarrow> bool" where
  "is_bullet c \<longleftrightarrow>
     c = 0x2D \<or> c = 0x2A \<or> c = 0xFF0D \<or> c = 0xFF0A \<or> c = 0x30FB \<or> c = 0x2022"

definition li_match :: "ustr \<Rightarrow> ustr option" where
  "li_match line =
     (case dropWhile is_space line of
        b # r \<Rightarrow> if is_bullet b then Some (dropWhile is_space r) else None
      | [] \<Rightarrow> None)"

definition is_blank :: "ustr \<Rightarrow> bool" where
  "is_blank l \<longleftrightarrow> strip l = []"

text \<open>
  The loop \<open>while i < len(lines)\<close> of \<open>parse_markdown\<close>, on the lines from index \<open>i\<close> on; the
  value is what the loop appends to \<open>blocks\<close>.  The test \<open>m and m.group(1)\<close> holds when the
  pattern matches with a non-empty group.
\<close>

function parse_lines :: "ustr \<Rightarrow> ustr list \<Rightarrow> block list" where
  "parse_lines pagebreak_marker [] = []"
| "parse_lines pagebreak_marker (line # rest) =
     (if strip line = pagebreak_marker then
        \<lparr>blk_type = Pagebreak, blk_text = []\<rparr> # parse_lines pagebreak_marker rest
      else case h2_match line of
        Some text \<Rightarrow> \<lparr>blk_type = H2, blk_text = text\<rparr> # parse_lines pagebreak_marker rest
      | None \<Rightarrow>
         (case li_match line of
            Some (g # gs) \<Rightarrow>
              \<lparr>blk_type = LI, blk_text = BULLET # rstrip (g # gs)\<rparr>
                # parse_lines pagebreak_marker rest
          | _ \<Rightarrow>
              \<lparr>blk_type = P,
               blk_text = rstrip (join_nl (line # takeWhile (\<lambda>l. \<not> is_blank l) rest))\<rparr>
                # (case dropWhile (\<lambda>l. \<not> is_blank l) rest of
                     [] \<Rightarrow> []
                   | blank # rest' \<Rightarrow>
                       \<lparr>blk_type = P, blk_text = []\<rparr> # parse_lines pagebreak_marker rest')))"
  by pat_completeness auto
termination
proof -
  have shorter: "length xs < Suc (length rest)"
    if "dropWhile (\<lambda>l. \<not> is_blank l) rest = x # xs" for rest :: "ustr list" and x xs
  proof -
    have "length (dropWhile (\<lambda>l. \<not> is_blank l) rest) \<le> length rest"
      by (rule length_dropWhile_le)
    with that show ?thesis by simp
  qed
  show ?thesis
    by (relation "measure (\<lambda>(m, ls). length ls)") (auto dest: shorter)
qed

text \<open>\<open>indent_fullwidth\<close> and \<open>debug_log\<close> do not reach the returned blocks.\<close>

definition parse_markdown :: "ustr \<Rightarrow> bool \<Rightarrow> ustr \<Rightarrow> block list" where
  "parse_markdown src indent_fullwidth pagebreak_marker =
     parse_lines pagebreak_marker
       (split_nl (replace [CR] [NL] (replace [CR, NL] [NL] src)))"

section \<open>Settings and capacity\<close>

text \<open>
  The settings dictionary, as far as the flow reads it: two dictionaries from a page label
  (or \<open>"default"\<close>) to a number, and the style defaults.  The values are taken to be
  integers, so that \<open>int(lp)\<close> is the value itself.
\<close>

record settings =
  lines_per_page :: "ustr \<rightharpoonup> int"
  cols_per_line :: "ustr \<rightharpoonup> int"
  style_defaults :: "ustr \<rightharpoonup> ustr"

text \<open>\<open>str(n)\<close> for a natural number, as the f-string \<open>f"p{idx+1}"\<close> prints it.\<close>

function dec :: "nat \<Rightarrow> ustr" where
  "dec n = (if n < 10 then [48 + n] else dec (n div 10) @ [48 + n mod 10])"
  by pat_completeness auto
termination
  by (relation "measure id") auto

definition page_label :: "nat \<Rightarrow> ustr" where
  "page_label idx = u ''p'' @ dec (idx + 1)"

text \<open>\<open>d.get(key, default)\<close>.\<close>

definition get_or :: "('k \<rightharpoonup> 'v) \<Rightarrow> 'k \<Rightarrow> 'v \<Rightarrow> 'v" where
  "get_or d k dflt = (case d k of Some v \<Rightarrow> v | None \<Rightarrow> dflt)"

definition limits :: "settings \<Rightarrow> nat \<Rightarrow> int \<times> int" where
  "limits st idx =
     (let page_lab = page_label idx;
          lp = get_or (lines_per_page st) page_lab (get_or (lines_per_page st) (u ''default'') 30);
          cp = get_or (cols_per_line st) page_lab (get_or (cols_per_line st) (u ''default'') 48)
      in (lp, cp))"

text \<open>
  \<open>read_settings\<close>.  The file system is the argument \<open>file\<close>: \<open>None\<close> when \<open>path.exists()\<close>
  is false, otherwise the outcome of \<open>path.read_text\<close> (\<open>None\<close> when it raises).
  \<open>json.loads\<close> is the parameter \<open>loads\<close>, with \<open>None\<close> for a raised exception.  Both
  exceptions are caught by the \<open>except Exception: pass\<close>.
\<close>

definition default_settings :: settings where
  "default_settings =
     \<lparr>lines_per_page = [u ''p1'' \<mapsto> 21, u ''default'' \<mapsto> 30],
      cols_per_line = [u ''p1'' \<mapsto> 86, u ''default'' \<mapsto> 48],
      style_defaults = [u ''fill'' \<mapsto> u ''#000000'', u ''stroke'' \<mapsto> u ''#ffffff'']\<rparr>"


section \<open>Estimation pass\<close>

text \<open>The page cursor \<open>(page_idx, used)\<close>.\<close>

type_synonym cursor = "nat \<times> nat"

text \<open>\<open>wrap_text_to_cols(blk["text"], cols) or [""]\<close>.\<close>

definition or_blank :: "ustr list \<Rightarrow> ustr list" where
  "or_blank ls = (if ls = [] then [[]] else ls)"

text \<open>The body of \<open>for _ in lines\<close>: one line is counted.\<close>

definition est_line :: "(nat \<Rightarrow> int \<times> int) \<Rightarrow> cursor \<Rightarrow> cursor" where
  "est_line limits_func c =
     (case c of (page_idx, used) \<Rightarrow>
        let m = fst (limits_func page_idx);
            (page_idx, used) = (if int used \<ge> m then (page_idx + 1, 0) else (page_idx, used))
        in (page_idx, used + 1))"

fun est_lines :: "(nat \<Rightarrow> int \<times> int) \<Rightarrow> cursor \<Rightarrow> ustr list \<Rightarrow> cursor" where
  "est_lines limits_func c [] = c"
| "est_lines limits_func c (l # ls) = est_lines limits_func (est_line limits_func c) ls"

text \<open>The body of \<open>for blk in blocks\<close>.\<close>

definition est_block :: "(nat \<Rightarrow> int \<times> int) \<Rightarrow> cursor \<Rightarrow> block \<Rightarrow> cursor" where
  "est_block limits_func c blk =
     (case c of (page_idx, used) \<Rightarrow>
        if blk_type blk = Pagebreak then (page_idx + 1, 0)
        else let cols = snd (limits_func page_idx);
                 lines = or_blank (wrap_text_to_cols (blk_text blk) cols)
             in est_lines limits_func (page_idx, used) lines)"

fun est_blocks :: "(nat \<Rightarrow> int \<times> int) \<Rightarrow> cursor \<Rightarrow> block list \<Rightarrow> cursor" where
  "est_blocks limits_func c [] = c"
| "est_blocks limits_func c (blk # blks) = est_blocks limits_func (est_block limits_func c blk) blks"

definition estimate_required_pages :: "block list \<Rightarrow> (nat \<Rightarrow> int \<times> int) \<Rightarrow> nat" where
  "estimate_required_pages blocks limits_func = fst (est_blocks limits_func (0, 0) blocks) + 1"

text \<open>
  The estimation places nothing; the page it counts each line on is the value of
  \<open>page_idx\<close> when \<open>used += 1\<close> runs for that line.  These functions list those values, in
  the order of the lines, with the same cursor steps as the loop above.
\<close>

fun est_line_pages :: "(nat \<Rightarrow> int \<times> int) \<Rightarrow> cursor \<Rightarrow> ustr list \<Rightarrow> nat list" where
  "est_line_pages limits_func c [] = []"
| "est_line_pages limits_func c (l # ls) =
     fst (est_line limits_func c) # est_line_pages limits_func (est_line limits_func c) ls"

fun est_block_pages :: "(nat \<Rightarrow> int \<times> int) \<Rightarrow> cursor \<Rightarrow> block list \<Rightarrow> nat list" where
  "est_block_pages limits_func c [] = []"
| "est_block_pages limits_func c (blk # blks) =
     (if blk_type blk = Pagebreak then []
      else est_line_pages limits_func c
             (or_blank (wrap_text_to_cols (blk_text blk) (snd (limits_func (fst c))))))
     @ est_block_pages limits_func (est_block limits_func c blk) blks"

section \<open>Page provisioner\<close>

text \<open>
  The document tree, as far as \<open>get_page\<close> looks at it.  An element has an address (the
  identity of the element object: two handles denote the same element when their
  addresses are equal), its tag, and the two attributes the look-ups test,
  \<open>inkscape:groupmode\<close> and \<open>inkscape:label\<close>.  The \<open>tspan\<close> and \<open>flowPara\<close> children that
  \<open>add_line_text\<close> appends to a text element carry no label and are no \<open>svg:g\<close>, so no
  look-up sees them; they are the field \<open>lines\<close>, one entry for each appended child,
  holding the line it was made from.  Style, transform and \<open>id\<close> attributes and the log
  are left out: nothing below reads them.
\<close>

datatype tag = SvgG | SvgText | SvgFlowRoot | OtherTag

datatype elem =
  Elem (addr: nat) (tag: tag) (groupmode: "ustr option") (label: "ustr option")
       (lines: "ustr list") (children: "elem list")

text \<open>The elements below an element, in document order (the element itself is not one).\<close>

fun descendants :: "elem \<Rightarrow> elem list" where
  "descendants (Elem a t g l ls cs) = concat (map (\<lambda>c. c # descendants c) cs)"

definition find_layer_by_label :: "elem \<Rightarrow> ustr \<Rightarrow> elem option" where
  "find_layer_by_label root name =
     find (\<lambda>g. tag g = SvgG \<and> groupmode g = Some (u ''layer'') \<and> label g = Some name)
          (descendants root)"

definition find_text_by_label :: "elem \<Rightarrow> ustr \<Rightarrow> elem option" where
  "find_text_by_label scope lab =
     find (\<lambda>e. label e = Some lab \<and> (tag e = SvgText \<or> tag e = SvgFlowRoot))
          (descendants scope)"

text \<open>
  \<open>clone_layer_as\<close>: a deep copy of \<open>src_layer\<close> gets the label \<open>new_name\<close>; the first element
  below it, in document order, whose label is \<open>text_label_old\<close> is relabelled; the copy is
  appended to the root.  The copy consists of new element objects: its addresses are
  those of the source shifted by \<open>next_addr\<close>, a bound above every address in use.  It is
  a copy of the layer as it is at the call, with the lines its text elements hold then.
\<close>

fun relabel_first :: "ustr \<Rightarrow> ustr \<Rightarrow> elem \<Rightarrow> elem \<times> bool"
  and relabel_first_list :: "ustr \<Rightarrow> ustr \<Rightarrow> elem list \<Rightarrow> elem list \<times> bool" where
  "relabel_first old new (Elem a t g l ls cs) =
     (if l = Some old then (Elem a t g (Some new) ls cs, True)
      else (case relabel_first_list old new cs of (cs', b) \<Rightarrow> (Elem a t g l ls cs', b)))"
| "relabel_first_list old new [] = ([], False)"
| "relabel_first_list old new (c # cs) =
     (case relabel_first old new c of
        (c', True) \<Rightarrow> (c' # cs, True)
      | (c', False) \<Rightarrow>
          (case relabel_first_list old new cs of (cs', b) \<Rightarrow> (c # cs', b)))"

fun shift_addr :: "nat \<Rightarrow> elem \<Rightarrow> elem" where
  "shift_addr n (Elem a t g l ls cs) = Elem (a + n) t g l ls (map (shift_addr n) cs)"

definition append_child :: "elem \<Rightarrow> elem \<Rightarrow> elem" where
  "append_child root c =
     Elem (addr root) (tag root) (groupmode root) (label root) (lines root) (children root @ [c])"

definition clone_layer :: "nat \<Rightarrow> elem \<Rightarrow> ustr \<Rightarrow> ustr \<Rightarrow> ustr \<Rightarrow> elem" where
  "clone_layer next src_layer new_name text_label_old text_label_new =
     (let clone = shift_addr next src_layer
      in Elem (addr clone) (tag clone) (groupmode clone) (Some new_name) (lines clone)
              (fst (relabel_first_list text_label_old text_label_new (children clone))))"

text \<open>
  What \<open>get_page\<close> reads and writes: the document \<open>doc\<close>, the list \<open>pages\<close> of labels and
  text elements (by address), the layer \<open>layer_p2\<close>, the number of \<open>inkscape:page\<close> elements
  of the named view (\<open>None\<close> when there is no named view), and the bound for new
  addresses.  The layer object \<open>layer_p2\<close> was found in the document at the start of
  \<open>effect\<close> and is shared with it: the state holds its subtree beside the document, and
  every write to an element is made in both (appending to the root does not change the
  subtree).
\<close>

record prov =
  doc :: elem
  pages :: "(ustr \<times> nat) list"
  layer_p2 :: elem
  nv_pages :: "nat option"
  next_addr :: nat

datatype error = NoNamedview | NoPhysicalPage | NoTextInClone

definition get_page :: "prov \<Rightarrow> nat \<Rightarrow> error + (nat \<times> prov)" where
  "get_page s idx =
     (let pre_lab = page_label idx;
          pre_text = (case find_layer_by_label (doc s) pre_lab of
                        None \<Rightarrow> None
                      | Some pre_layer \<Rightarrow> find_text_by_label pre_layer pre_lab)
      in case pre_text of
        Some t \<Rightarrow>
          Inr (addr t,
               if idx \<ge> length (pages s) then s\<lparr>pages := pages s @ [(pre_lab, addr t)]\<rparr> else s)
      | None \<Rightarrow>
          (case nv_pages s of
             None \<Rightarrow> Inl NoNamedview
           | Some pgs \<Rightarrow>
               if pgs = 0 then Inl NoPhysicalPage
               else
                 let s1 = s\<lparr>nv_pages := Some (max pgs (idx + 1))\<rparr> in
                 if idx < length (pages s1) then Inr (snd (pages s1 ! idx), s1)
                 else
                   let new_lab = page_label idx;
                       new_layer = clone_layer (next_addr s1) (layer_p2 s1) new_lab (u ''p2'') new_lab
                   in case find_text_by_label new_layer new_lab of
                        None \<Rightarrow> Inl NoTextInClone
                      | Some new_text \<Rightarrow>
                          Inr (addr new_text,
                               s1\<lparr>doc := append_child (doc s1) new_layer,
                                  pages := pages s1 @ [(new_lab, addr new_text)],
                                  next_addr := 2 * next_addr s1\<rparr>)))"

section \<open>Commit pass\<close>

text \<open>
  \<open>add_line_text(el, line, ...)\<close> appends one child (a \<open>tspan\<close>, or a \<open>flowPara\<close> in a flow
  root) for the line to the element \<open>el\<close>; here \<open>el\<close> is the address and the tree in which
  the element lies is passed.  \<open>text_lines\<close> reads the lines an element of the tree holds.
\<close>

fun add_line_text :: "nat \<Rightarrow> ustr \<Rightarrow> elem \<Rightarrow> elem" where
  "add_line_text el line (Elem a t g l ls cs) =
     Elem a t g l (if a = el then ls @ [line] else ls) (map (add_line_text el line) cs)"

definition text_lines :: "elem \<Rightarrow> nat \<Rightarrow> ustr list" where
  "text_lines root a =
     (case find (\<lambda>e. addr e = a) (root # descendants root) of
        Some e \<Rightarrow> lines e
      | None \<Rightarrow> [])"

text \<open>
  The record of one call \<open>add_line_text(el, line, ...)\<close>, with the values of \<open>page_idx\<close> and
  \<open>used\<close> at the call and the type of the block the line comes from (which selects the
  style).
\<close>

record placement =
  pl_page :: nat
  pl_used :: nat
  pl_el :: nat
  pl_line :: ustr
  pl_kind :: kind

text \<open>The variables of the commit loop of \<open>effect\<close>, with the calls made so far.\<close>

record flow =
  page_idx :: nat
  used :: nat
  prov_of :: prov
  placed :: "placement list"

text \<open>The overflow test at the head of the \<open>while\<close> body, with its \<open>get_page\<close>.\<close>

definition overflow :: "settings \<Rightarrow> flow \<Rightarrow> error + flow" where
  "overflow st f =
     (let m = fst (limits st (page_idx f)) in
      if int (used f) \<ge> m then
        (case get_page (prov_of f) (page_idx f + 1) of
           Inl e \<Rightarrow> Inl e
         | Inr (_, pv) \<Rightarrow> Inr (f\<lparr>page_idx := page_idx f + 1, used := 0, prov_of := pv\<rparr>))
      else Inr f)"

text \<open>The loop \<open>while i < len(lines)\<close>, on the lines from index \<open>i\<close> on.\<close>

fun commit_lines :: "settings \<Rightarrow> kind \<Rightarrow> flow \<Rightarrow> ustr list \<Rightarrow> error + flow" where
  "commit_lines st k f [] = Inr f"
| "commit_lines st k f (ln # lns) =
     (case overflow st f of
        Inl e \<Rightarrow> Inl e
      | Inr f1 \<Rightarrow>
          (case get_page (prov_of f1) (page_idx f1) of
             Inl e \<Rightarrow> Inl e
           | Inr (el, pv) \<Rightarrow>
               commit_lines st k
                 (f1\<lparr>prov_of := pv\<lparr>doc := add_line_text el ln (doc pv),
                                      layer_p2 := add_line_text el ln (layer_p2 pv)\<rparr>,
                     placed := placed f1 @
                       [\<lparr>pl_page = page_idx f1, pl_used = used f1, pl_el = el,
                         pl_line = ln, pl_kind = k\<rparr>],
                     used := used f1 + 1\<rparr>)
                 lns))"

text \<open>The lines of a block as the commit pass places them.\<close>

definition block_lines :: "settings \<Rightarrow> bool \<Rightarrow> nat \<Rightarrow> block \<Rightarrow> ustr list" where
  "block_lines st indent_fullwidth idx blk =
     (let cols = snd (limits st idx);
          lines = or_blank (wrap_text_to_cols (blk_text blk) cols)
      in if blk_type blk = H2 then map (lstrip_chars [FULLWIDTH_SPACE, SP]) lines
         else if indent_fullwidth then
           map (\<lambda>ln. if ln \<noteq> [] \<and> \<not> prefix [FULLWIDTH_SPACE] ln then FULLWIDTH_SPACE # ln else ln)
               lines
         else lines)"

text \<open>The loop \<open>for blk in blocks\<close> of the commit pass.\<close>

fun commit_blocks :: "settings \<Rightarrow> bool \<Rightarrow> flow \<Rightarrow> block list \<Rightarrow> error + flow" where
  "commit_blocks st ind f [] = Inr f"
| "commit_blocks st ind f (blk # blks) =
     (if blk_type blk = Pagebreak then
        (case get_page (prov_of f) (page_idx f + 1) of
           Inl e \<Rightarrow> Inl e
         | Inr (_, pv) \<Rightarrow>
             commit_blocks st ind (f\<lparr>page_idx := page_idx f + 1, used := 0, prov_of := pv\<rparr>) blks)
      else
        (case commit_lines st (blk_type blk) f (block_lines st ind (page_idx f) blk) of
           Inl e \<Rightarrow> Inl e
         | Inr f' \<Rightarrow> commit_blocks st ind f' blks))"

definition commit_pass :: "settings \<Rightarrow> bool \<Rightarrow> prov \<Rightarrow> block list \<Rightarrow> error + flow" where
  "commit_pass st ind pv blocks =
     commit_blocks st ind \<lparr>page_idx = 0, used = 0, prov_of = pv, placed = []\<rparr> blocks"

section \<open>Notions used in the statements\<close>

text \<open>
  A line is within the budget, or it is one character that alone is wider than the
  budget.
\<close>

definition line_ok :: "int \<Rightarrow> ustr \<Rightarrow> bool" where
  "line_ok cols l \<longleftrightarrow> line_width l \<le> cols \<or> (\<exists>ch. l = [ch] \<and> cols < char_width ch)"

text \<open>
  The wrapping of one paragraph as the specification words it: accumulate characters
  while the running width sum stays within \<open>columns\<close>; when the next character would
  exceed the budget, close the line and start a new one, dropping that character if it
  is a plain space and carrying it as the first character of the new line otherwise.
  \<open>spec_fit cols w s\<close> is the longest prefix of \<open>s\<close> that can be added to a line of width
  \<open>w\<close>; \<open>spec_greedy cols line s\<close> gives the lines made from the started line \<open>line\<close> and the
  characters \<open>s\<close>.
\<close>

fun spec_fit :: "int \<Rightarrow> int \<Rightarrow> ustr \<Rightarrow> ustr" where
  "spec_fit cols w [] = []"
| "spec_fit cols w (ch # s) =
     (if w + char_width ch \<le> cols then ch # spec_fit cols (w + char_width ch) s else [])"

function spec_greedy :: "int \<Rightarrow> ustr \<Rightarrow> ustr \<Rightarrow> ustr list" where
  "spec_greedy cols line s =
     (let pre = spec_fit cols (line_width line) s in
      case drop (length pre) s of
        [] \<Rightarrow> [line @ pre]
      | ch # rest \<Rightarrow>
          (line @ pre) # (if ch = SP then spec_greedy cols [] rest else spec_greedy cols [ch] rest))"
  by pat_completeness auto
termination
proof (relation "measure (\<lambda>(cols, line, s). length s)", goal_cases)
  case 1
  show ?case by simp
next
  case (2 cols line s pre ch rest)
  then have "length (ch # rest) \<le> length s"
    by (metis length_drop diff_le_self)
  then show ?case by simp
next
  case (3 cols line s pre ch rest)
  then have "length (ch # rest) \<le> length s"
    by (metis length_drop diff_le_self)
  then show ?case by simp
qed

text \<open>A text without backslash and without \<open><\<close>: it holds no break token.\<close>

definition plain :: "ustr \<Rightarrow> bool" where
  "plain s \<longleftrightarrow> BSL \<notin> set s \<and> 60 \<notin> set s"

text \<open>A character that is no white space and starts no break token.\<close>

definition ordinary :: "uchar \<Rightarrow> bool" where
  "ordinary c \<longleftrightarrow> \<not> is_space c \<and> c \<noteq> BSL \<and> c \<noteq> 60"

text \<open>The number of calls of \<open>add_line_text\<close> made on page \<open>p\<close>.\<close>

definition count_on :: "placement list \<Rightarrow> nat \<Rightarrow> nat" where
  "count_on pls p = length (filter (\<lambda>pl. pl_page pl = p) pls)"

text \<open>
  The invariant of the commit loop: every call was made below the budget of its page
  and on a page up to the current one, \<open>pl_used\<close> is the number of calls made before it on
  its page, \<open>used\<close> is the number of calls on the current page, and no page received more
  calls than its budget.
\<close>

definition flow_inv :: "settings \<Rightarrow> flow \<Rightarrow> bool" where
  "flow_inv st f \<longleftrightarrow>
     (\<forall>pl\<in>set (placed f). int (pl_used pl) < fst (limits st (pl_page pl)) \<and> pl_page pl \<le> page_idx f) \<and>
     (\<forall>i<length (placed f).
        pl_used (placed f ! i) = count_on (take i (placed f)) (pl_page (placed f ! i))) \<and>
     count_on (placed f) (page_idx f) = used f \<and>
     (\<forall>p. int (count_on (placed f) p) \<le> fst (limits st p))"

text \<open>What \<open>find_layer_by_label\<close> tests besides the label.\<close>

definition is_layer :: "elem \<Rightarrow> bool" where
  "is_layer e \<longleftrightarrow> tag e = SvgG \<and> groupmode e = Some (u ''layer'')"

section \<open>An example document\<close>

text \<open>
  The document at the start of the commit pass of a run that needs three pages: the
  layers \<open>p1\<close> and \<open>p2\<close>, each with a frame and a cleared text element labelled as the
  layer; the format layer with its sub-layer \<open>f2\<close>; and the layer \<open>p3\<close> that
  \<open>ensure_pages_horizontal_from_p3\<close> has made from the children of \<open>f2\<close>, which holds no text
  element labelled \<open>p3\<close>.  There is one physical page.
\<close>

definition ex_page_layer :: "ustr \<Rightarrow> nat \<Rightarrow> elem" where
  "ex_page_layer lab a =
     Elem a SvgG (Some (u ''layer'')) (Some lab) []
       [Elem (a + 1) OtherTag None None [] [], Elem (a + 2) SvgText None (Some lab) [] []]"

definition FORMAT_LABEL :: ustr where
  "FORMAT_LABEL = [0x5B, 0x30D5, 0x30A9, 0x30FC, 0x30DE, 0x30C3, 0x30C8, 0x5D]"

definition ex_doc :: elem where
  "ex_doc =
     Elem 0 OtherTag None None []
       [ex_page_layer (u ''p1'') 1,
        ex_page_layer (u ''p2'') 4,
        Elem 7 SvgG (Some (u ''layer'')) (Some FORMAT_LABEL) []
          [Elem 8 SvgG (Some (u ''layer'')) (Some (u ''f2'')) [] [Elem 9 OtherTag None None [] []]],
        Elem 10 SvgG (Some (u ''layer'')) (Some (u ''p3'')) [] [Elem 11 OtherTag None None [] []]]"

definition ex_prov :: prov where
  "ex_prov =
     \<lparr>doc = ex_doc,
      pages = [(u ''p1'', 3), (u ''p2'', 6)],
      layer_p2 = ex_page_layer (u ''p2'') 4,
      nv_pages = Some 1,
      next_addr = 12\<rparr>"

text \<open>One line on every page, ten columns.\<close>

definition ex_settings :: settings where
  "ex_settings =
     \<lparr>lines_per_page = [u ''default'' \<mapsto> 1], cols_per_line = [u ''default'' \<mapsto> 10],
      style_defaults = Map.empty\<rparr>"

definition ex_blocks :: "block list" where
  "ex_blocks = [\<lparr>blk_type = P, blk_text = u ''a''\<rparr>, \<lparr>blk_type = P, blk_text = u ''b''\<rparr>]"

text \<open>The page-break marker that \<open>effect\<close> passes by default.\<close>

definition NEWPAGE :: ustr where
  "NEWPAGE = BSL # u ''newpage''"

text \<open>The lines that \<open>parse_markdown\<close> scans: the source with its line ends normalised, split.\<close>

definition source_lines :: "ustr \<Rightarrow> ustr list" where
  "source_lines src = split_nl (replace [CR] [NL] (replace [CR, NL] [NL] src))"

text \<open>The scenario of the specification: its source, and two lines of ten columns on every page.\<close>

definition scenario_src :: ustr where
  "scenario_src =
     u ''## Title'' @ NL # NL # u ''Body text'' @ NL # u ''- item one'' @ NL # u ''- item two'' @ [NL]"

definition scenario_settings :: settings where
  "scenario_settings =
     \<lparr>lines_per_page = [u ''default'' \<mapsto> 2], cols_per_line = [u ''default'' \<mapsto> 10],
      style_defaults = Map.empty\<rparr>"

text \<open>The text element that the first part of \<open>get_page\<close> looks for.\<close>

definition pre_text_of :: "elem \<Rightarrow> ustr \<Rightarrow> elem option" where
  "pre_text_of root lab =
     (case find_layer_by_label root lab of
        None \<Rightarrow> None
      | Some pre_layer \<Rightarrow> find_text_by_label pre_layer lab)"

text \<open>
  What holds at the head of both loops of the commit pass: \<open>pages\<close> has an entry for the
  current page, and \<open>layer_p2\<close> is a layer.  \<open>effect\<close> starts the pass on page 1 with the
  entries of \<open>p1\<close> and \<open>p2\<close> in \<open>pages\<close> and with the layer that \<open>find_layer_by_label\<close> gave
  for \<open>p2\<close>.
\<close>

definition run_ok :: "flow \<Rightarrow> bool" where
  "run_ok f \<longleftrightarrow> page_idx f < length (pages (prov_of f)) \<and> is_layer (layer_p2 (prov_of f))"

text \<open>The two writes of one \<open>add_line_text\<close>, to the document and to the shared layer.\<close>

definition with_line :: "nat \<Rightarrow> ustr \<Rightarrow> prov \<Rightarrow> prov" where
  "with_line el ln s =
     s\<lparr>doc := add_line_text el ln (doc s), layer_p2 := add_line_text el ln (layer_p2 s)\<rparr>"

section \<open>The line wrapper: width of the lines\<close>

lemmas wrap_eval =
  wrap_text_to_cols_def preprocess_def u_def NL_def BSL_def SP_def wrap_para_def
  is_fullwidth_def is_space_def before_last_nl_def

lemma char_width_pos: "0 < char_width ch"
  by (simp add: char_width_def)

lemma line_width_nonneg: "0 \<le> line_width s"
  by (induction s) (auto simp: line_width_def char_width_def)

lemma line_width_append: "line_width (a @ b) = line_width a + line_width b"
  by (simp add: line_width_def)

lemma line_width_Cons: "line_width (c # s) = char_width c + line_width s"
  by (simp add: line_width_def)

lemma line_width_Nil: "line_width [] = 0"
  by (simp add: line_width_def)

text \<open>The lines already in \<open>out\<close> are never touched again.\<close>

lemma wrap_chars_out:
  "wrap_chars cols (out @ out') line wsum cs = out @ wrap_chars cols out' line wsum cs"
  by (induction cs arbitrary: out' line wsum) (simp_all add: Let_def)

lemma wrap_para_out: "wrap_para cols (out @ out') para = out @ wrap_para cols out' para"
  by (simp add: wrap_para_def wrap_chars_out)

lemma foldl_wrap_para_out:
  "foldl (wrap_para cols) (out @ out') ps = out @ foldl (wrap_para cols) out' ps"
  by (induction ps arbitrary: out') (simp_all add: wrap_para_out)

text \<open>
  The invariant of the inner loop: \<open>wsum\<close> is the width of \<open>line\<close>, and \<open>line\<close> and the
  lines of \<open>out\<close> are within the budget or one oversized character.
\<close>

lemma wrap_chars_ok:
  "0 \<le> cols \<Longrightarrow> wsum = line_width line \<Longrightarrow> line_ok cols line \<Longrightarrow> list_all (line_ok cols) out
     \<Longrightarrow> list_all (line_ok cols) (wrap_chars cols out line wsum cs)"
proof (induction cs arbitrary: out line wsum)
  case Nil
  then show ?case by simp
next
  case (Cons ch rest)
  have w: "(if is_fullwidth ch then 2 else 1) = char_width ch"
    by (simp add: char_width_def)
  show ?case
  proof (cases "wsum + char_width ch > cols")
    case True
    have out': "list_all (line_ok cols) (out @ [line])"
      using Cons.prems by simp
    have e: "line_ok cols []"
      using Cons.prems(1) by (simp add: line_ok_def line_width_Nil)
    have s: "line_ok cols [ch]"
      by (auto simp: line_ok_def line_width_def)
    show ?thesis
      using True Cons.IH[OF Cons.prems(1) _ e out', of 0]
        Cons.IH[OF Cons.prems(1) _ s out', of "char_width ch"]
      by (simp add: w Let_def line_width_def)
  next
    case False
    have l: "line_ok cols (line @ [ch])"
      using False Cons.prems(2) by (simp add: line_ok_def line_width_def)
    show ?thesis
      using False Cons.IH[OF Cons.prems(1) _ l Cons.prems(4), of "wsum + char_width ch"]
        Cons.prems(2)
      by (simp add: w Let_def line_width_def)
  qed
qed

lemma wrap_para_ok:
  "0 \<le> cols \<Longrightarrow> list_all (line_ok cols) out \<Longrightarrow> list_all (line_ok cols) (wrap_para cols out para)"
  using wrap_chars_ok[of cols 0 "[]" out para]
  by (simp add: wrap_para_def line_ok_def line_width_Nil)

lemma foldl_wrap_para_ok:
  "0 \<le> cols \<Longrightarrow> list_all (line_ok cols) out
     \<Longrightarrow> list_all (line_ok cols) (foldl (wrap_para cols) out ps)"
  by (induction ps arbitrary: out) (simp_all add: wrap_para_ok)

text \<open>
  C2.  For every string \<open>s\<close> and every column budget \<open>c \<ge> 1\<close>, every line of
  \<open>wrap_text_to_cols(s, c)\<close> has a width sum (2 for a wide character, 1 for a narrow one)
  of at most \<open>c\<close>, or it is a single character that alone is wider than \<open>c\<close>.
\<close>

theorem wrap_width_bound:
  "1 \<le> c \<Longrightarrow> l \<in> set (wrap_text_to_cols s c)
     \<Longrightarrow> line_width l \<le> c \<or> (\<exists>ch. l = [ch] \<and> c < char_width ch)"
  using foldl_wrap_para_ok[of c "[]" "split_nl (preprocess s)"]
  by (simp add: wrap_text_to_cols_def list_all_iff line_ok_def)

theorem wrap_width_bound_witness:
  "(1::int) \<le> 1 \<and> [0x5168] \<in> set (wrap_text_to_cols [0x5168, 0x41] 1)
   \<and> (line_width [0x5168] \<le> 1 \<or> (\<exists>ch. [0x5168] = [ch] \<and> 1 < char_width ch))"
proof -
  have a: "[0x5168] \<in> set (wrap_text_to_cols [0x5168, 0x41] 1)"
    by (simp add: wrap_eval)
  show ?thesis
    using a wrap_width_bound[of 1 "[0x5168]" "[0x5168, 0x41]"] by simp
qed

section \<open>The line wrapper: greedy accumulation\<close>

text \<open>\<open>spec_fit\<close> is the longest prefix that fits.\<close>

lemma spec_fit_prefix: "prefix (spec_fit cols w s) s"
  by (induction s arbitrary: w) simp_all

lemma spec_fit_fits: "spec_fit cols w s \<noteq> [] \<Longrightarrow> w + line_width (spec_fit cols w s) \<le> cols"
proof (induction s arbitrary: w)
  case Nil
  then show ?case by simp
next
  case (Cons ch s)
  then have fit: "w + char_width ch \<le> cols"
    by (simp split: if_splits)
  show ?case
  proof (cases "spec_fit cols (w + char_width ch) s = []")
    case True
    with fit show ?thesis by (simp add: line_width_Cons line_width_Nil)
  next
    case False
    from Cons.IH[OF False] fit show ?thesis by (simp add: line_width_Cons)
  qed
qed

lemma spec_fit_maximal:
  "s = spec_fit cols w s @ ch # rest \<Longrightarrow> cols < w + line_width (spec_fit cols w s) + char_width ch"
proof (induction s arbitrary: w)
  case Nil
  then show ?case by simp
next
  case (Cons c s)
  show ?case
  proof (cases "w + char_width c \<le> cols")
    case True
    with Cons.prems have "s = spec_fit cols (w + char_width c) s @ ch # rest"
      by simp
    from Cons.IH[OF this] True show ?thesis by (simp add: line_width_Cons)
  next
    case False
    with Cons.prems show ?thesis by (simp add: line_width_Nil)
  qed
qed

text \<open>
  One pass of the inner loop over the longest fitting prefix: either the characters run
  out, or the loop closes the line before the next character.
\<close>

lemma wrap_chars_fit:
  "wsum = line_width line \<Longrightarrow>
   wrap_chars cols out line wsum s =
     (case drop (length (spec_fit cols wsum s)) s of
        [] \<Rightarrow> out @ [line @ spec_fit cols wsum s]
      | ch # rest \<Rightarrow>
          if ch = SP then wrap_chars cols (out @ [line @ spec_fit cols wsum s]) [] 0 rest
          else wrap_chars cols (out @ [line @ spec_fit cols wsum s]) [ch] (char_width ch) rest)"
proof (induction s arbitrary: line wsum)
  case Nil
  then show ?case by simp
next
  case (Cons c s)
  have w: "(if is_fullwidth c then 2 else 1) = char_width c"
    by (simp add: char_width_def)
  show ?case
  proof (cases "wsum + char_width c \<le> cols")
    case True
    have "wsum + char_width c = line_width (line @ [c])"
      using Cons.prems by (simp add: line_width_append line_width_Cons line_width_Nil)
    from Cons.IH[OF this] True show ?thesis
      by (simp add: w Let_def split: list.split)
  next
    case False
    then have "spec_fit cols wsum (c # s) = []" by simp
    with False show ?thesis by (auto simp: w Let_def)
  qed
qed

lemma wrap_chars_greedy:
  "wrap_chars cols out line (line_width line) s = out @ spec_greedy cols line s"
proof (induction "length s" arbitrary: s out line rule: less_induct)
  case less
  show ?case
  proof (cases "drop (length (spec_fit cols (line_width line) s)) s")
    case Nil
    then show ?thesis
      using wrap_chars_fit[of "line_width line" line cols out s]
      by (simp add: Let_def)
  next
    case (Cons ch rest)
    then have "length (ch # rest) \<le> length s"
      by (metis length_drop diff_le_self)
    then have shorter: "length rest < length s" by simp
    have a: "wrap_chars cols (out @ [line @ spec_fit cols (line_width line) s]) [] 0 rest =
             (out @ [line @ spec_fit cols (line_width line) s]) @ spec_greedy cols [] rest"
      using less[OF shorter, of "out @ [line @ spec_fit cols (line_width line) s]" "[]"]
      by (simp add: line_width_Nil)
    have b: "wrap_chars cols (out @ [line @ spec_fit cols (line_width line) s]) [ch] (char_width ch) rest =
             (out @ [line @ spec_fit cols (line_width line) s]) @ spec_greedy cols [ch] rest"
      using less[OF shorter, of "out @ [line @ spec_fit cols (line_width line) s]" "[ch]"]
      by (simp add: line_width_Cons line_width_Nil)
    have "spec_greedy cols line s =
            (line @ spec_fit cols (line_width line) s) #
              (if ch = SP then spec_greedy cols [] rest else spec_greedy cols [ch] rest)"
      using Cons by (subst spec_greedy.simps) (simp add: Let_def)
    then show ?thesis
      using wrap_chars_fit[of "line_width line" line cols out s] Cons a b
      by simp
  qed
qed

lemma spec_greedy_empty: "spec_greedy cols [] [] = [[]]"
  by (subst spec_greedy.simps) simp

lemma wrap_para_greedy: "wrap_para cols out para = out @ spec_greedy cols [] para"
  using wrap_chars_greedy[of cols out "[]" para]
  by (simp add: wrap_para_def line_width_Nil spec_greedy_empty)

lemma foldl_wrap_para_greedy:
  "foldl (wrap_para cols) out ps = out @ concat (map (spec_greedy cols []) ps)"
  by (induction ps arbitrary: out) (simp_all add: wrap_para_greedy)

text \<open>
  C6.  Within one paragraph \<open>wrap_text_to_cols\<close> accumulates characters greedily while the
  running width sum stays at most \<open>cols\<close>; when the next character would exceed the budget
  it closes the line and starts a new one, dropping that character if it is a plain
  space and carrying it as the first character of the new line otherwise: the loop
  gives, for every paragraph and every budget, the lines of \<open>spec_greedy\<close>, each made of
  the longest prefix \<open>spec_fit\<close> that fits.  In particular \<open>wrap_text_to_cols("ABCDEFGH", 5)\<close>
  is \<open>["ABCDE", "FGH"]\<close>; thirteen letters at five columns give three lines, and a space
  that triggers a break is dropped.
\<close>

theorem wrap_greedy:
  "wrap_para cols out para = out @ spec_greedy cols [] para \<and>
   wrap_text_to_cols text cols = concat (map (spec_greedy cols []) (split_nl (preprocess text))) \<and>
   prefix (spec_fit cols w s) s \<and>
   (spec_fit cols w s \<noteq> [] \<longrightarrow> w + line_width (spec_fit cols w s) \<le> cols) \<and>
   (s = spec_fit cols w s @ ch # rest \<longrightarrow>
      cols < w + line_width (spec_fit cols w s) + char_width ch) \<and>
   wrap_text_to_cols (u ''ABCDEFGH'') 5 = [u ''ABCDE'', u ''FGH''] \<and>
   wrap_text_to_cols (u ''ABCDEFGHIJKLM'') 5 = [u ''ABCDE'', u ''FGHIJ'', u ''KLM''] \<and>
   wrap_text_to_cols (u ''ab cd  ef'') 2 = [u ''ab'', u ''cd'', u '' e'', u ''f'']"
proof (intro conjI impI)
  show "wrap_para cols out para = out @ spec_greedy cols [] para"
    by (rule wrap_para_greedy)
  show "wrap_text_to_cols text cols = concat (map (spec_greedy cols []) (split_nl (preprocess text)))"
    using foldl_wrap_para_greedy[of cols "[]"] by (simp add: wrap_text_to_cols_def)
  show "prefix (spec_fit cols w s) s"
    by (rule spec_fit_prefix)
  show "w + line_width (spec_fit cols w s) \<le> cols" if "spec_fit cols w s \<noteq> []"
    using that by (rule spec_fit_fits)
  show "cols < w + line_width (spec_fit cols w s) + char_width ch"
    if "s = spec_fit cols w s @ ch # rest"
    using that by (rule spec_fit_maximal)
  show "wrap_text_to_cols (u ''ABCDEFGH'') 5 = [u ''ABCDE'', u ''FGH'']"
    by (simp add: wrap_eval)
  show "wrap_text_to_cols (u ''ABCDEFGHIJKLM'') 5 = [u ''ABCDE'', u ''FGHIJ'', u ''KLM'']"
    by (simp add: wrap_eval)
  show "wrap_text_to_cols (u ''ab cd  ef'') 2 = [u ''ab'', u ''cd'', u '' e'', u ''f'']"
    by (simp add: wrap_eval)
qed

theorem wrap_greedy_witness:
  "spec_fit 5 0 (u ''ABCDEFGH'') = u ''ABCDE'' \<and>
   u ''ABCDEFGH'' = spec_fit 5 0 (u ''ABCDEFGH'') @ of_char CHR ''F'' # u ''GH'' \<and>
   0 + line_width (spec_fit 5 0 (u ''ABCDEFGH'')) \<le> 5 \<and>
   5 < 0 + line_width (spec_fit 5 0 (u ''ABCDEFGH'')) + char_width (of_char CHR ''F'') \<and>
   wrap_para 5 [] (u ''ABCDEFGH'') = [] @ spec_greedy 5 [] (u ''ABCDEFGH'')"
proof -
  have f: "spec_fit 5 0 (u ''ABCDEFGH'') = u ''ABCDE''"
    by (simp add: u_def char_width_def is_fullwidth_def)
  have e: "u ''ABCDEFGH'' = spec_fit 5 0 (u ''ABCDEFGH'') @ of_char CHR ''F'' # u ''GH''"
    unfolding f by (simp add: u_def)
  have n: "spec_fit 5 0 (u ''ABCDEFGH'') \<noteq> []"
    unfolding f by (simp add: u_def)
  show ?thesis
    using f e n
      wrap_greedy[of 5 "[]" "u ''ABCDEFGH''" "[]" 0 "u ''ABCDEFGH''" "of_char CHR ''F''" "u ''GH''"]
    by blast
qed

section \<open>The line wrapper: break tokens\<close>

lemma replace_absent:
  "old \<noteq> [] \<Longrightarrow> hd old \<notin> set a \<Longrightarrow> replace old new (a @ s) = a @ replace old new s"
proof (induction a)
  case Nil
  then show ?case by simp
next
  case (Cons c a)
  then have "\<not> prefix old (c # a @ s)"
    by (cases old) auto
  with Cons show ?case by simp
qed

lemma replace_none: "old \<noteq> [] \<Longrightarrow> hd old \<notin> set a \<Longrightarrow> replace old new a = a"
  using replace_absent[of old a new "[]"] by simp

lemma replace_here:
  "old \<noteq> [] \<Longrightarrow> replace old new (old @ s) = new @ replace old new s"
  by (cases old) simp_all

lemma sub_absent:
  "BSL \<notin> set a \<Longrightarrow> sub_trailing_backslash (a @ s) = a @ sub_trailing_backslash s"
  by (induction a) simp_all

lemma sub_none: "BSL \<notin> set a \<Longrightarrow> sub_trailing_backslash a = a"
  using sub_absent[of a "[]"] by simp

lemma split_nl_nonempty: "split_nl s \<noteq> []"
  by (induction s) (auto split: list.splits)

lemma split_nl_append: "split_nl (a @ NL # b) = split_nl a @ split_nl b"
proof (induction a)
  case Nil
  then show ?case by simp
next
  case (Cons c a)
  show ?case
  proof (cases "c = NL")
    case True
    with Cons show ?thesis by simp
  next
    case False
    obtain l ls where s: "split_nl a = l # ls"
      using split_nl_nonempty[of a] by (cases "split_nl a") auto
    with False Cons show ?thesis by simp
  qed
qed

lemma wrap_lines_append:
  "foldl (wrap_para cols) (foldl (wrap_para cols) [] xs) ys =
     foldl (wrap_para cols) [] xs @ foldl (wrap_para cols) [] ys"
  using foldl_wrap_para_out[of cols "foldl (wrap_para cols) [] xs" "[]" ys] by simp

lemma preprocess_plain: "plain a \<Longrightarrow> preprocess a = a"
  by (simp add: preprocess_def plain_def replace_none sub_none u_def)

lemma space_not_token: "is_space c \<Longrightarrow> c \<noteq> BSL \<and> c \<noteq> 60"
  by (auto simp: is_space_def BSL_def)

lemma spaces_plain: "\<forall>c\<in>set ws. is_space c \<Longrightarrow> plain ws"
  using space_not_token by (auto simp: plain_def)

lemma before_last_nl_split: "NL \<notin> set w2 \<Longrightarrow> before_last_nl (w1 @ NL # w2) = w1"
proof -
  assume "NL \<notin> set w2"
  then have "dropWhile (\<lambda>c. c \<noteq> NL) (rev w2 @ NL # rev w1) = NL # rev w1"
    by (auto simp: dropWhile_append3)
  then show ?thesis by (simp add: before_last_nl_def)
qed

text \<open>
  Every \<open><br>\<close> and every pair of backslashes becomes a line feed: here \<open>a\<close> holds no token
  and \<open>s\<close> is any text, with further tokens or not.
\<close>

lemma replace_br_step:
  "60 \<notin> set a \<Longrightarrow> replace (u ''<br>'') [NL] (a @ u ''<br>'' @ s) = a @ NL # replace (u ''<br>'') [NL] s"
  using replace_absent[of "u ''<br>''" a "[NL]" "u ''<br>'' @ s"] replace_here[of "u ''<br>''" "[NL]" s]
  by (simp add: u_def)

lemma replace_bsl2_step:
  "BSL \<notin> set a \<Longrightarrow> replace [BSL, BSL] [NL] (a @ [BSL, BSL] @ s) = a @ NL # replace [BSL, BSL] [NL] s"
  using replace_absent[of "[BSL, BSL]" a "[NL]" "[BSL, BSL] @ s"] replace_here[of "[BSL, BSL]" "[NL]" s]
  by simp

lemma replace_bsl2_nl:
  "BSL \<notin> set a \<Longrightarrow> replace [BSL, BSL] [NL] (a @ NL # s) = a @ NL # replace [BSL, BSL] [NL] s"
  using replace_absent[of "[BSL, BSL]" "a @ [NL]" "[NL]" s] by (simp add: NL_def BSL_def)

lemma replace_br_other:
  "60 \<notin> set a \<Longrightarrow> replace (u ''<br>'') [NL] (a @ s) = a @ replace (u ''<br>'') [NL] s"
  using replace_absent[of "u ''<br>''" a "[NL]" s] by (simp add: u_def)

lemma sub_nl:
  "BSL \<notin> set a \<Longrightarrow> sub_trailing_backslash (a @ NL # s) = a @ NL # sub_trailing_backslash s"
  using sub_absent[of "a @ [NL]" s] by (simp add: NL_def BSL_def)

lemma preprocess_br:
  assumes "plain a"
  shows "preprocess (a @ u ''<br>'' @ s) = a @ NL # preprocess s"
  using assms by (simp add: preprocess_def plain_def replace_br_step replace_bsl2_nl sub_nl)

lemma preprocess_bsl2:
  assumes "plain a"
  shows "preprocess (a @ [BSL, BSL] @ s) = a @ NL # preprocess s"
proof -
  have "replace (u ''<br>'') [NL] (a @ [BSL, BSL] @ s) = (a @ [BSL, BSL]) @ replace (u ''<br>'') [NL] s"
    using assms replace_br_other[of "a @ [BSL, BSL]" s] by (simp add: plain_def BSL_def)
  then show ?thesis
    using assms replace_bsl2_step[of a "replace (u ''<br>'') [NL] s"]
    by (simp add: preprocess_def plain_def sub_nl)
qed

text \<open>
  A lone backslash: with only white space up to the end of the text it becomes one line
  feed; before a white-space run that holds a line feed, the backslash and the run up
  to its last line feed become one line feed; before a run without a line feed nothing
  happens.
\<close>

lemma preprocess_bsl_end:
  assumes "plain a" "\<forall>c\<in>set ws. is_space c"
  shows "preprocess (a @ BSL # ws) = a @ [NL]"
proof -
  have pw: "plain ws" using assms(2) by (rule spaces_plain)
  have 1: "replace (u ''<br>'') [NL] (a @ BSL # ws) = a @ BSL # ws"
    using assms(1) pw by (intro replace_none) (auto simp: plain_def u_def BSL_def)
  have "\<not> prefix [BSL, BSL] (BSL # ws)"
    using pw by (cases ws) (auto simp: plain_def)
  then have "replace [BSL, BSL] [NL] (BSL # ws) = BSL # ws"
    using pw by (simp add: replace_none plain_def)
  then have 2: "replace [BSL, BSL] [NL] (a @ BSL # ws) = a @ BSL # ws"
    using assms(1) replace_absent[of "[BSL, BSL]" a "[NL]" "BSL # ws"] by (simp add: plain_def)
  have "dropWhile is_space ws = []" using assms(2) by simp
  then have 3: "sub_trailing_backslash (a @ BSL # ws) = a @ [NL]"
    using assms(1) sub_absent[of a "BSL # ws"] by (simp add: plain_def)
  show ?thesis by (simp add: preprocess_def 1 2 3)
qed

lemma preprocess_ordinary:
  "ordinary c \<Longrightarrow> preprocess (c # s) = c # preprocess s"
  using replace_absent[of "u ''<br>''" "[c]" "[NL]" s]
    replace_absent[of "[BSL, BSL]" "[c]" "[NL]" "replace (u ''<br>'') [NL] s"]
  by (simp add: preprocess_def ordinary_def u_def)

lemma preprocess_bsl_run:
  assumes "plain a" "\<forall>x\<in>set ws. is_space x" "ordinary c"
  shows "preprocess (a @ BSL # ws @ c # s) =
           (if NL \<in> set ws
            then a @ NL # drop (length (before_last_nl ws)) ws @ preprocess (c # s)
            else a @ BSL # ws @ preprocess (c # s))"
proof -
  let ?r = "replace [BSL, BSL] [NL] (replace (u ''<br>'') [NL] s)"
  have pw: "plain ws" using assms(2) by (rule spaces_plain)
  have c: "\<not> is_space c" "c \<noteq> BSL" "c \<noteq> 60" using assms(3) by (simp_all add: ordinary_def)
  have "60 \<notin> set (a @ BSL # ws @ [c])"
    using assms(1) pw c by (auto simp: plain_def BSL_def)
  then have 1: "replace (u ''<br>'') [NL] ((a @ BSL # ws @ [c]) @ s) =
                  (a @ BSL # ws @ [c]) @ replace (u ''<br>'') [NL] s"
    by (rule replace_br_other)
  have np: "\<not> prefix [BSL, BSL] (BSL # ws @ c # replace (u ''<br>'') [NL] s)"
    using pw c by (cases ws) (auto simp: plain_def)
  have "BSL \<notin> set (ws @ [c])" using pw c by (auto simp: plain_def)
  then have "replace [BSL, BSL] [NL] ((ws @ [c]) @ replace (u ''<br>'') [NL] s) = (ws @ [c]) @ ?r"
    using replace_absent[of "[BSL, BSL]" "ws @ [c]" "[NL]"] by simp
  with np have "replace [BSL, BSL] [NL] (BSL # ws @ c # replace (u ''<br>'') [NL] s) = BSL # ws @ c # ?r"
    by simp
  then have 2: "replace [BSL, BSL] [NL] (a @ BSL # ws @ c # replace (u ''<br>'') [NL] s) =
                  a @ BSL # ws @ c # ?r"
    using assms(1) replace_absent[of "[BSL, BSL]" a "[NL]" "BSL # ws @ c # replace (u ''<br>'') [NL] s"]
    by (simp add: plain_def)
  have tw: "takeWhile is_space (ws @ c # ?r) = ws" "dropWhile is_space (ws @ c # ?r) = c # ?r"
    using assms(2) c by (simp_all add: takeWhile_append2 dropWhile_append2)
  have wsb: "BSL \<notin> set ws" using pw by (simp add: plain_def)
  have rest: "sub_trailing_backslash (ws @ c # ?r) = ws @ c # sub_trailing_backslash ?r"
    using sub_absent[of "ws @ [c]" ?r] wsb c by simp
  have dropped: "sub_trailing_backslash (drop n ws @ c # ?r) = drop n ws @ c # sub_trailing_backslash ?r" for n
  proof -
    have "BSL \<notin> set (drop n ws @ [c])"
      using wsb c by (auto dest: in_set_dropD)
    then show ?thesis using sub_absent[of "drop n ws @ [c]" ?r] by simp
  qed
  have len: "length (before_last_nl ws) \<le> length ws"
    using length_dropWhile_le[of "\<lambda>c. c \<noteq> NL" "rev ws"] by (simp add: before_last_nl_def)
  have 3: "sub_trailing_backslash (BSL # ws @ c # ?r) =
             (if NL \<in> set ws
              then NL # drop (length (before_last_nl ws)) ws @ c # sub_trailing_backslash ?r
              else BSL # ws @ c # sub_trailing_backslash ?r)"
    using tw rest dropped[of "length (before_last_nl ws)"] len by (simp add: Let_def)
  have 4: "sub_trailing_backslash (a @ BSL # ws @ c # ?r) = a @ sub_trailing_backslash (BSL # ws @ c # ?r)"
    using assms(1) by (intro sub_absent) (simp add: plain_def)
  have 5: "preprocess (c # s) = c # sub_trailing_backslash ?r"
    using preprocess_ordinary[OF assms(3), of s] by (simp add: preprocess_def)
  have "preprocess (a @ BSL # ws @ c # s) = sub_trailing_backslash (a @ BSL # ws @ c # ?r)"
    using 1 2 by (simp add: preprocess_def)
  then show ?thesis
    unfolding 4 3 5 by simp
qed

lemma preprocess_bsl_eol:
  assumes "plain a" "\<forall>x\<in>set w1. is_space x" "\<forall>x\<in>set w2. is_space x" "NL \<notin> set w2" "ordinary c"
  shows "preprocess (a @ BSL # w1 @ NL # w2 @ c # s) = a @ NL # NL # w2 @ preprocess (c # s)"
proof -
  have sp: "\<forall>x\<in>set (w1 @ NL # w2). is_space x"
    using assms(2,3) by (auto simp: is_space_def NL_def)
  have "preprocess (a @ BSL # (w1 @ NL # w2) @ c # s) =
          a @ NL # drop (length (before_last_nl (w1 @ NL # w2))) (w1 @ NL # w2) @ preprocess (c # s)"
    using preprocess_bsl_run[OF assms(1) sp assms(5), of s] by simp
  then show ?thesis
    using assms(4) by (simp add: before_last_nl_split)
qed

text \<open>The same at the level of the wrapped lines.\<close>

lemma wrap_at_line_feed:
  "preprocess t = a @ NL # preprocess s \<Longrightarrow> preprocess a = a
     \<Longrightarrow> wrap_text_to_cols t cols = wrap_text_to_cols a cols @ wrap_text_to_cols s cols"
  by (simp add: wrap_text_to_cols_def split_nl_append wrap_lines_append)

lemma wrap_br:
  assumes "plain a"
  shows "wrap_text_to_cols (a @ u ''<br>'' @ s) cols =
           wrap_text_to_cols a cols @ wrap_text_to_cols s cols"
  by (rule wrap_at_line_feed[OF preprocess_br[OF assms] preprocess_plain[OF assms]])

lemma wrap_bsl2:
  assumes "plain a"
  shows "wrap_text_to_cols (a @ [BSL, BSL] @ s) cols =
           wrap_text_to_cols a cols @ wrap_text_to_cols s cols"
  by (rule wrap_at_line_feed[OF preprocess_bsl2[OF assms] preprocess_plain[OF assms]])

text \<open>
  C7.  \<open>wrap_text_to_cols\<close> turns every \<open><br>\<close> and every pair of backslashes into a line
  break (\<open>wrap_br\<close>, \<open>wrap_bsl2\<close>), and \<open>A\<close>, two backslashes, \<open>B\<close> wraps to the lines \<open>A\<close> and
  \<open>B\<close>.  A lone backslash at the end of a line is turned into a break when the next line
  is not blank (\<open>ab\<close>, backslash, line feed, \<open>cd\<close> gives an empty line between \<open>ab\<close> and
  \<open>cd\<close>).  Before a blank line it is not: the pattern \<open>\s*\<close> runs over line feeds, so the
  backslash is replaced together with the line feed after it, and the text wraps as it
  does without the backslash, to one empty line where a break for the backslash would
  give two; further blank lines after it are lost as well.  The same happens inside a
  paragraph of the source when two \<open><br>\<close> follow the backslash.
\<close>

theorem trailing_backslash_before_blank_line:
  "wrap_text_to_cols (u ''A'' @ [BSL, BSL] @ u ''B'') 8 = [u ''A'', u ''B''] \<and>
   wrap_text_to_cols (u ''ab'' @ [BSL, NL] @ u ''cd'') 8 = [u ''ab'', [], u ''cd''] \<and>
   wrap_text_to_cols (u ''ab'' @ [BSL, NL, NL] @ u ''cd'') 8 = [u ''ab'', [], u ''cd''] \<and>
   wrap_text_to_cols (u ''ab'' @ [NL, NL] @ u ''cd'') 8 = [u ''ab'', [], u ''cd''] \<and>
   wrap_text_to_cols (u ''ab'' @ [NL, NL, NL] @ u ''cd'') 8 = [u ''ab'', [], [], u ''cd''] \<and>
   wrap_text_to_cols (u ''ab'' @ [BSL] @ u ''<br><br>cd'') 8 = [u ''ab'', [], u ''cd''] \<and>
   wrap_text_to_cols (u ''ab'' @ [BSL, NL, NL, NL] @ u ''cd'') 8 = [u ''ab'', [], u ''cd''] \<and>
   wrap_text_to_cols (u ''a'' @ [BSL, BSL] @ u ''b'' @ [BSL, BSL] @ u ''c<br>d<br>e'') 8 =
     [u ''a'', u ''b'', u ''c'', u ''d'', u ''e''] \<and>
   wrap_text_to_cols (u ''a'' @ [BSL, NL] @ u ''b'' @ [BSL, SP, NL] @ u ''c'' @ [BSL]) 8 =
     [u ''a'', [], u ''b'', [], u ''c'', []]"
proof (intro conjI)
  show "wrap_text_to_cols (u ''A'' @ [BSL, BSL] @ u ''B'') 8 = [u ''A'', u ''B'']"
    by (simp add: wrap_eval)
  show "wrap_text_to_cols (u ''ab'' @ [BSL, NL] @ u ''cd'') 8 = [u ''ab'', [], u ''cd'']"
    by (simp add: wrap_eval)
  show "wrap_text_to_cols (u ''ab'' @ [BSL, NL, NL] @ u ''cd'') 8 = [u ''ab'', [], u ''cd'']"
    by (simp add: wrap_eval)
  show "wrap_text_to_cols (u ''ab'' @ [NL, NL] @ u ''cd'') 8 = [u ''ab'', [], u ''cd'']"
    by (simp add: wrap_eval)
  show "wrap_text_to_cols (u ''ab'' @ [NL, NL, NL] @ u ''cd'') 8 = [u ''ab'', [], [], u ''cd'']"
    by (simp add: wrap_eval)
  show "wrap_text_to_cols (u ''ab'' @ [BSL] @ u ''<br><br>cd'') 8 = [u ''ab'', [], u ''cd'']"
    by (simp add: wrap_eval)
  show "wrap_text_to_cols (u ''ab'' @ [BSL, NL, NL, NL] @ u ''cd'') 8 = [u ''ab'', [], u ''cd'']"
    by (simp add: wrap_eval)
  show "wrap_text_to_cols (u ''a'' @ [BSL, BSL] @ u ''b'' @ [BSL, BSL] @ u ''c<br>d<br>e'') 8 =
     [u ''a'', u ''b'', u ''c'', u ''d'', u ''e'']"
    by (simp add: wrap_eval)
  show "wrap_text_to_cols (u ''a'' @ [BSL, NL] @ u ''b'' @ [BSL, SP, NL] @ u ''c'' @ [BSL]) 8 =
     [u ''a'', [], u ''b'', [], u ''c'', []]"
    by (simp add: wrap_eval)
qed

section \<open>The block parser: list items\<close>

lemma split_nl_single: "NL \<notin> set s \<Longrightarrow> split_nl s = [s]"
  by (induction s) auto

lemma normalise_none:
  "CR \<notin> set s \<Longrightarrow> replace [CR] [NL] (replace [CR, NL] [NL] s) = s"
  by (simp add: replace_none)

lemma parse_markdown_lines: "parse_markdown src ind mk = parse_lines mk (source_lines src)"
  by (simp add: parse_markdown_def source_lines_def)

lemma source_lines_single: "NL \<notin> set line \<Longrightarrow> CR \<notin> set line \<Longrightarrow> source_lines line = [line]"
  by (simp add: source_lines_def normalise_none split_nl_single)

lemma source_lines_first:
  assumes "NL \<notin> set line" "CR \<notin> set line"
  shows "source_lines (line @ NL # src) = line # source_lines src"
proof -
  have c: "CR \<notin> set (line @ [NL])"
    using assms(2) by (simp add: CR_def NL_def)
  have 1: "replace [CR, NL] [NL] ((line @ [NL]) @ src) = (line @ [NL]) @ replace [CR, NL] [NL] src"
    using c by (intro replace_absent) simp_all
  have 2: "replace [CR] [NL] ((line @ [NL]) @ replace [CR, NL] [NL] src) =
             (line @ [NL]) @ replace [CR] [NL] (replace [CR, NL] [NL] src)"
    using c by (intro replace_absent) simp_all
  have "replace [CR] [NL] (replace [CR, NL] [NL] (line @ NL # src)) =
          line @ NL # replace [CR] [NL] (replace [CR, NL] [NL] src)"
    using 1 2 by simp
  then show ?thesis
    using assms(1) by (simp add: source_lines_def split_nl_append split_nl_single)
qed

lemma bullet_not_space: "is_bullet b \<Longrightarrow> \<not> is_space b"
  by (auto simp: is_bullet_def is_space_def)

lemma bullet_not_h2: "is_bullet b \<Longrightarrow> \<not> is_hash b \<and> \<not> is_digit b"
  by (auto simp: is_bullet_def is_hash_def is_digit_def)

lemma drop_lead:
  "\<forall>c\<in>set lead. is_space c \<Longrightarrow> \<not> is_space b \<Longrightarrow> dropWhile is_space (lead @ b # r) = b # r"
  by (simp add: dropWhile_append3)

lemma h2_match_bullet:
  assumes "is_bullet b" "\<forall>c\<in>set lead. is_space c"
  shows "h2_match (lead @ b # r) = None"
proof -
  have "dropWhile is_space (lead @ b # r) = b # r"
    using assms bullet_not_space by (intro drop_lead) auto
  then show ?thesis
    using assms(1) by (cases r) (simp_all add: h2_match_def bullet_not_h2)
qed

lemma li_match_bullet:
  assumes "is_bullet b" "\<forall>c\<in>set lead. is_space c"
  shows "li_match (lead @ b # r) = Some (dropWhile is_space r)"
proof -
  have "dropWhile is_space (lead @ b # r) = b # r"
    using assms bullet_not_space by (intro drop_lead) auto
  then show ?thesis
    using assms(1) by (simp add: li_match_def)
qed

lemma rstrip_spaces: "\<not> is_space b \<Longrightarrow> \<forall>c\<in>set ws. is_space c \<Longrightarrow> rstrip (s @ b # ws) = s @ [b]"
  by (simp add: rstrip_def dropWhile_append3)

lemma strip_bare:
  assumes "\<not> is_space b" "\<forall>c\<in>set lead. is_space c" "\<forall>c\<in>set ws. is_space c"
  shows "strip (lead @ b # ws) = [b]"
  using rstrip_spaces[OF assms(1,3), of "[]"] drop_lead[OF assms(2,1), of ws]
  by (simp add: strip_def lstrip_def)

text \<open>
  A bare bullet line at the head of the scan goes to the paragraph branch: it starts a
  paragraph that runs to the next blank line.
\<close>

lemma parse_lines_bare_bullet:
  assumes "is_bullet b" "\<forall>c\<in>set lead. is_space c" "\<forall>c\<in>set ws. is_space c" "mk \<noteq> [b]"
  shows "parse_lines mk ((lead @ b # ws) # rest) =
           \<lparr>blk_type = P,
            blk_text = rstrip (join_nl ((lead @ b # ws) # takeWhile (\<lambda>l. \<not> is_blank l) rest))\<rparr>
             # (case dropWhile (\<lambda>l. \<not> is_blank l) rest of
                  [] \<Rightarrow> []
                | blank # rest' \<Rightarrow> \<lparr>blk_type = P, blk_text = []\<rparr> # parse_lines mk rest')"
proof -
  have st: "strip (lead @ b # ws) = [b]"
    using assms(1-3) bullet_not_space by (intro strip_bare) auto
  have li: "li_match (lead @ b # ws) = Some []"
    using assms(3) by (simp add: li_match_bullet[OF assms(1,2)])
  show ?thesis
    using assms(4) by (simp add: st li h2_match_bullet[OF assms(1,2)])
qed

text \<open>A bullet line with text at the head of the scan is a list item, and the scan goes on.\<close>

lemma parse_lines_item:
  assumes "is_bullet b" "\<forall>c\<in>set lead. is_space c" "\<forall>c\<in>set ws. is_space c" "\<not> is_space g"
    "mk \<noteq> strip (lead @ b # ws @ g # gs)"
  shows "parse_lines mk ((lead @ b # ws @ g # gs) # rest) =
           \<lparr>blk_type = LI, blk_text = BULLET # rstrip (g # gs)\<rparr> # parse_lines mk rest"
proof -
  have li: "li_match (lead @ b # ws @ g # gs) = Some (g # gs)"
    using assms(3,4) by (simp add: li_match_bullet[OF assms(1,2)] dropWhile_append3)
  show ?thesis
    using assms(5) by (simp add: li h2_match_bullet[OF assms(1,2)])
qed

lemma strip_hello: "strip (u ''- hello'') = u ''- hello''" "strip (u ''- '') = u ''-''"
  by (simp_all add: strip_def lstrip_def rstrip_def u_def is_space_def)

text \<open>
  C5.  At every position of the scan, a line that is a bullet glyph with nothing but
  white space after it (such as \<open>"- "\<close>) is taken by the paragraph branch and starts a
  paragraph block, not a list item; a line with a bullet glyph, optional white space
  and then text yields a list item block whose text is the canonical bullet followed by
  that text without its trailing white space, and the scan goes on with the next line.
  The scan starts at the first line of the source.  In particular the source \<open>"- "\<close> gives
  one paragraph with the text \<open>"-"\<close> and the source \<open>"- hello"\<close> gives one list item with
  the text \<open>"\<cdot>hello"\<close> (with the katakana middle dot).  The page-break test comes first in
  the loop, so the marker must differ from the stripped line; and a line that follows a
  paragraph line without a blank line between is part of that paragraph and is not
  looked at by the scan.
\<close>

theorem list_item_guard:
  "(is_bullet b \<and> (\<forall>c\<in>set lead. is_space c) \<and> (\<forall>c\<in>set ws. is_space c) \<and> mk \<noteq> [b] \<longrightarrow>
      parse_lines mk ((lead @ b # ws) # rest) =
        \<lparr>blk_type = P,
         blk_text = rstrip (join_nl ((lead @ b # ws) # takeWhile (\<lambda>l. \<not> is_blank l) rest))\<rparr>
          # (case dropWhile (\<lambda>l. \<not> is_blank l) rest of
               [] \<Rightarrow> []
             | blank # rest' \<Rightarrow> \<lparr>blk_type = P, blk_text = []\<rparr> # parse_lines mk rest')) \<and>
   (is_bullet b \<and> (\<forall>c\<in>set lead. is_space c) \<and> (\<forall>c\<in>set ws. is_space c) \<and> \<not> is_space g \<and>
    mk \<noteq> strip (lead @ b # ws @ g # gs) \<longrightarrow>
      parse_lines mk ((lead @ b # ws @ g # gs) # rest) =
        \<lparr>blk_type = LI, blk_text = BULLET # rstrip (g # gs)\<rparr> # parse_lines mk rest) \<and>
   parse_markdown src ind mk = parse_lines mk (source_lines src) \<and>
   (NL \<notin> set line \<and> CR \<notin> set line \<longrightarrow>
      source_lines line = [line] \<and> source_lines (line @ NL # src) = line # source_lines src) \<and>
   (mk \<noteq> u ''-'' \<longrightarrow>
      parse_markdown (u ''- '') ind mk = [\<lparr>blk_type = P, blk_text = u ''-''\<rparr>]) \<and>
   (mk \<noteq> u ''- hello'' \<longrightarrow>
      parse_markdown (u ''- hello'') ind mk = [\<lparr>blk_type = LI, blk_text = BULLET # u ''hello''\<rparr>]) \<and>
   parse_markdown (u ''- hello'' @ NL # u ''- '' @ NL # NL # u ''* hi  '') ind NEWPAGE =
     [\<lparr>blk_type = LI, blk_text = BULLET # u ''hello''\<rparr>, \<lparr>blk_type = P, blk_text = u ''-''\<rparr>,
      \<lparr>blk_type = P, blk_text = []\<rparr>, \<lparr>blk_type = LI, blk_text = BULLET # u ''hi''\<rparr>] \<and>
   parse_markdown (u ''x'' @ NL # u ''- hello'') ind NEWPAGE =
     [\<lparr>blk_type = P, blk_text = u ''x'' @ NL # u ''- hello''\<rparr>]"
proof (intro conjI impI)
  assume "is_bullet b \<and> (\<forall>c\<in>set lead. is_space c) \<and> (\<forall>c\<in>set ws. is_space c) \<and> mk \<noteq> [b]"
  then show "parse_lines mk ((lead @ b # ws) # rest) =
        \<lparr>blk_type = P,
         blk_text = rstrip (join_nl ((lead @ b # ws) # takeWhile (\<lambda>l. \<not> is_blank l) rest))\<rparr>
          # (case dropWhile (\<lambda>l. \<not> is_blank l) rest of
               [] \<Rightarrow> []
             | blank # rest' \<Rightarrow> \<lparr>blk_type = P, blk_text = []\<rparr> # parse_lines mk rest')"
    using parse_lines_bare_bullet by blast
next
  assume "is_bullet b \<and> (\<forall>c\<in>set lead. is_space c) \<and> (\<forall>c\<in>set ws. is_space c) \<and> \<not> is_space g \<and>
    mk \<noteq> strip (lead @ b # ws @ g # gs)"
  then show "parse_lines mk ((lead @ b # ws @ g # gs) # rest) =
        \<lparr>blk_type = LI, blk_text = BULLET # rstrip (g # gs)\<rparr> # parse_lines mk rest"
    using parse_lines_item by blast
next
  show "parse_markdown src ind mk = parse_lines mk (source_lines src)"
    by (rule parse_markdown_lines)
next
  assume "NL \<notin> set line \<and> CR \<notin> set line"
  then show "source_lines line = [line]" "source_lines (line @ NL # src) = line # source_lines src"
    by (simp_all add: source_lines_single source_lines_first)
next
  assume "mk \<noteq> u ''-''"
  then show "parse_markdown (u ''- '') ind mk = [\<lparr>blk_type = P, blk_text = u ''-''\<rparr>]"
    using parse_lines_bare_bullet[of 45 "[]" "[32]" mk "[]"] source_lines_single[of "u ''- ''"]
    by (simp add: parse_markdown_lines u_def is_bullet_def is_space_def NL_def CR_def rstrip_def)
next
  assume "mk \<noteq> u ''- hello''"
  then show "parse_markdown (u ''- hello'') ind mk = [\<lparr>blk_type = LI, blk_text = BULLET # u ''hello''\<rparr>]"
    using parse_lines_item[of 45 "[]" "[32]" 104 mk "u ''ello''" "[]"] source_lines_single[of "u ''- hello''"]
      strip_hello(1)
    by (simp add: parse_markdown_lines u_def is_bullet_def is_space_def NL_def CR_def rstrip_def)
next
  show "parse_markdown (u ''- hello'' @ NL # u ''- '' @ NL # NL # u ''* hi  '') ind NEWPAGE =
     [\<lparr>blk_type = LI, blk_text = BULLET # u ''hello''\<rparr>, \<lparr>blk_type = P, blk_text = u ''-''\<rparr>,
      \<lparr>blk_type = P, blk_text = []\<rparr>, \<lparr>blk_type = LI, blk_text = BULLET # u ''hi''\<rparr>]"
    by (simp add: parse_markdown_def u_def NEWPAGE_def NL_def CR_def BSL_def strip_def lstrip_def
        rstrip_def is_space_def h2_match_def li_match_def is_hash_def is_digit_def is_bullet_def
        is_blank_def)
next
  show "parse_markdown (u ''x'' @ NL # u ''- hello'') ind NEWPAGE =
     [\<lparr>blk_type = P, blk_text = u ''x'' @ NL # u ''- hello''\<rparr>]"
    by (simp add: parse_markdown_def u_def NEWPAGE_def NL_def CR_def BSL_def strip_def lstrip_def
        rstrip_def is_space_def h2_match_def li_match_def is_hash_def is_digit_def is_bullet_def
        is_blank_def)
qed

theorem list_item_guard_witness:
  "is_bullet 45 \<and> NEWPAGE \<noteq> [45] \<and> \<not> is_space 104 \<and>
   NEWPAGE \<noteq> strip ([32] @ 45 # [32] @ 104 # u ''ello'') \<and>
   NL \<notin> set (u ''- hello'') \<and> CR \<notin> set (u ''- hello'') \<and>
   NEWPAGE \<noteq> u ''-'' \<and> NEWPAGE \<noteq> u ''- hello'' \<and>
   parse_lines NEWPAGE (([32] @ 45 # [32]) # [u ''after'']) =
     \<lparr>blk_type = P,
      blk_text = rstrip (join_nl (([32] @ 45 # [32]) # takeWhile (\<lambda>l. \<not> is_blank l) [u ''after'']))\<rparr>
       # (case dropWhile (\<lambda>l. \<not> is_blank l) [u ''after''] of
            [] \<Rightarrow> []
          | blank # rest' \<Rightarrow> \<lparr>blk_type = P, blk_text = []\<rparr> # parse_lines NEWPAGE rest') \<and>
   parse_lines NEWPAGE (([32] @ 45 # [32] @ 104 # u ''ello'') # [u ''after'']) =
     \<lparr>blk_type = LI, blk_text = BULLET # rstrip (104 # u ''ello'')\<rparr> # parse_lines NEWPAGE [u ''after''] \<and>
   source_lines (u ''- hello'' @ NL # u ''z'') = u ''- hello'' # source_lines (u ''z'') \<and>
   parse_markdown (u ''- '') False NEWPAGE = [\<lparr>blk_type = P, blk_text = u ''-''\<rparr>] \<and>
   parse_markdown (u ''- hello'') False NEWPAGE = [\<lparr>blk_type = LI, blk_text = BULLET # u ''hello''\<rparr>]"
proof -
  have h: "is_bullet 45 \<and> (\<forall>c\<in>set [32]. is_space c) \<and> NEWPAGE \<noteq> [45] \<and> \<not> is_space 104 \<and>
    NEWPAGE \<noteq> strip ([32] @ 45 # [32] @ 104 # u ''ello'') \<and>
    NL \<notin> set (u ''- hello'') \<and> CR \<notin> set (u ''- hello'') \<and>
    NEWPAGE \<noteq> u ''-'' \<and> NEWPAGE \<noteq> u ''- hello''"
    by (simp add: is_bullet_def is_space_def NL_def CR_def BSL_def NEWPAGE_def u_def strip_def
        lstrip_def rstrip_def)
  show ?thesis
    using h list_item_guard[where b = 45 and lead = "[32]" and ws = "[32]" and mk = NEWPAGE
        and rest = "[u ''after'']" and g = 104 and gs = "u ''ello''" and line = "u ''- hello''"
        and src = "u ''z''" and ind = False]
    by blast
qed

section \<open>Empty source text\<close>

lemma wrap_empty: "wrap_text_to_cols [] cols = [[]]"
  by (simp add: wrap_eval)

lemma parse_empty:
  "mk \<noteq> [] \<Longrightarrow> parse_markdown [] ind mk = [\<lparr>blk_type = P, blk_text = []\<rparr>]"
  by (simp add: parse_markdown_def strip_def lstrip_def rstrip_def h2_match_def li_match_def)

text \<open>
  The empty source splits into one empty line, which the paragraph branch turns into one
  empty paragraph: the parser does not return the empty sequence, and the estimation
  counts a line.
\<close>

theorem empty_source_counterexample:
  "parse_markdown [] False (BSL # u ''newpage'') \<noteq> [] \<and>
   est_block_pages (limits default_settings) (0, 0)
     (parse_markdown [] False (BSL # u ''newpage'')) \<noteq> []"
  by (simp add: parse_empty or_blank_def wrap_empty)

text \<open>
  C4, as the code has it.  For empty source text and a non-empty page-break marker,
  \<open>parse_markdown\<close> returns the single block of an empty paragraph; when the first page
  takes at least one line, the estimation yields page count 1 (\<open>page_idx\<close> is never
  incremented) and counts exactly one line, the blank one, on the first page.
\<close>

theorem empty_source:
  "mk \<noteq> [] \<Longrightarrow>
     parse_markdown [] ind mk = [\<lparr>blk_type = P, blk_text = []\<rparr>] \<and>
     (1 \<le> fst (limits_func 0) \<longrightarrow>
        estimate_required_pages (parse_markdown [] ind mk) limits_func = 1 \<and>
        est_block_pages limits_func (0, 0) (parse_markdown [] ind mk) = [0])"
  by (simp add: parse_empty estimate_required_pages_def est_block_def or_blank_def wrap_empty
      est_line_def)

theorem empty_source_witness:
  "BSL # u ''newpage'' \<noteq> [] \<and> 1 \<le> fst (limits default_settings 0) \<and>
   parse_markdown [] False (BSL # u ''newpage'') = [\<lparr>blk_type = P, blk_text = []\<rparr>] \<and>
   estimate_required_pages (parse_markdown [] False (BSL # u ''newpage'')) (limits default_settings) = 1 \<and>
   est_block_pages (limits default_settings) (0, 0) (parse_markdown [] False (BSL # u ''newpage'')) = [0]"
proof -
  have l: "1 \<le> fst (limits default_settings 0)"
    by (simp add: limits_def default_settings_def page_label_def get_or_def u_def)
  have h: "BSL # u ''newpage'' \<noteq> []" by simp
  show ?thesis
    using l h empty_source[OF h, of False "limits default_settings"] by blast
qed

section \<open>The two passes agree\<close>

lemma est_lines_length:
  "length ls = length ls' \<Longrightarrow> est_lines lim c ls = est_lines lim c ls'"
  by (induction ls ls' arbitrary: c rule: list_induct2) simp_all

lemma est_line_pages_length:
  "length ls = length ls' \<Longrightarrow> est_line_pages lim c ls = est_line_pages lim c ls'"
  by (induction ls ls' arbitrary: c rule: list_induct2) simp_all

lemma length_block_lines:
  "length (block_lines st ind idx blk) =
     length (or_blank (wrap_text_to_cols (blk_text blk) (snd (limits st idx))))"
  by (simp add: block_lines_def Let_def)

lemma overflow_est:
  "overflow st f = Inr f1 \<Longrightarrow>
     est_line (limits st) (page_idx f, used f) = (page_idx f1, used f1 + 1) \<and> placed f1 = placed f"
  by (auto simp: overflow_def est_line_def Let_def split: if_splits sum.splits prod.splits)

lemma commit_lines_est:
  "commit_lines st k f lns = Inr f' \<Longrightarrow>
     (page_idx f', used f') = est_lines (limits st) (page_idx f, used f) lns \<and>
     map pl_page (placed f') =
       map pl_page (placed f) @ est_line_pages (limits st) (page_idx f, used f) lns"
proof (induction lns arbitrary: f)
  case Nil
  then show ?case by simp
next
  case (Cons ln lns)
  from Cons.prems obtain f1 el pv where
    o: "overflow st f = Inr f1" and
    g: "get_page (prov_of f1) (page_idx f1) = Inr (el, pv)" and
    r: "commit_lines st k
          (f1\<lparr>prov_of := pv\<lparr>doc := add_line_text el ln (doc pv),
                               layer_p2 := add_line_text el ln (layer_p2 pv)\<rparr>,
              placed := placed f1 @
                [\<lparr>pl_page = page_idx f1, pl_used = used f1, pl_el = el, pl_line = ln, pl_kind = k\<rparr>],
              used := used f1 + 1\<rparr>) lns = Inr f'"
    by (auto split: sum.splits prod.splits)
  from overflow_est[OF o] Cons.IH[OF r] show ?case by simp
qed

lemma commit_blocks_est:
  "commit_blocks st ind f blocks = Inr f' \<Longrightarrow>
     (page_idx f', used f') = est_blocks (limits st) (page_idx f, used f) blocks \<and>
     map pl_page (placed f') =
       map pl_page (placed f) @ est_block_pages (limits st) (page_idx f, used f) blocks"
proof (induction blocks arbitrary: f)
  case Nil
  then show ?case by simp
next
  case (Cons blk blks)
  show ?case
  proof (cases "blk_type blk = Pagebreak")
    case True
    with Cons.prems obtain h pv where
      r: "commit_blocks st ind (f\<lparr>page_idx := page_idx f + 1, used := 0, prov_of := pv\<rparr>) blks = Inr f'"
      by (auto split: sum.splits prod.splits)
    from Cons.IH[OF r] True show ?thesis by (simp add: est_block_def)
  next
    case False
    with Cons.prems obtain f1 where
      l: "commit_lines st (blk_type blk) f (block_lines st ind (page_idx f) blk) = Inr f1" and
      r: "commit_blocks st ind f1 blks = Inr f'"
      by (auto split: sum.splits)
    let ?w = "or_blank (wrap_text_to_cols (blk_text blk) (snd (limits st (page_idx f))))"
    have a: "est_lines (limits st) (page_idx f, used f) (block_lines st ind (page_idx f) blk) =
             est_lines (limits st) (page_idx f, used f) ?w"
      by (rule est_lines_length) (rule length_block_lines)
    have b: "est_line_pages (limits st) (page_idx f, used f) (block_lines st ind (page_idx f) blk) =
             est_line_pages (limits st) (page_idx f, used f) ?w"
      by (rule est_line_pages_length) (rule length_block_lines)
    have e: "est_block (limits st) (page_idx f, used f) blk = (page_idx f1, used f1)"
      using commit_lines_est[OF l] a False by (simp add: est_block_def Let_def)
    from commit_lines_est[OF l] Cons.IH[OF r] False show ?thesis
      by (simp add: a b e)
  qed
qed

text \<open>
  C1.  For every block sequence and every capacity configuration, when the commit pass
  runs to its end, the page count of the estimation is the final \<open>page_idx\<close> of the commit
  loop plus 1, and the pages on which the commit pass places its lines, in order, are
  the pages on which the estimation counts them.
\<close>

theorem pass_agreement:
  "commit_pass st ind pv blocks = Inr f \<Longrightarrow>
     estimate_required_pages blocks (limits st) = page_idx f + 1 \<and>
     map pl_page (placed f) = est_block_pages (limits st) (0, 0) blocks"
  using commit_blocks_est[of st ind "\<lparr>page_idx = 0, used = 0, prov_of = pv, placed = []\<rparr>" blocks f]
  by (simp add: commit_pass_def estimate_required_pages_def) (metis fst_conv)

section \<open>Line budget of a page\<close>

lemma count_on_snoc:
  "count_on (pls @ [pl]) p = count_on pls p + (if pl_page pl = p then 1 else 0)"
  by (simp add: count_on_def)

lemma count_on_zero: "\<forall>pl\<in>set pls. pl_page pl < p \<Longrightarrow> count_on pls p = 0"
  by (auto simp: count_on_def filter_empty_conv)

lemma flow_inv_next_page:
  assumes "flow_inv st f" "0 < fst (limits st (page_idx f + 1))"
  shows "flow_inv st (f\<lparr>page_idx := page_idx f + 1, used := 0, prov_of := pv\<rparr>)"
proof -
  have "\<forall>pl\<in>set (placed f). pl_page pl < page_idx f + 1"
    using assms(1) by (auto simp: flow_inv_def)
  then have "count_on (placed f) (page_idx f + 1) = 0"
    by (rule count_on_zero)
  then show ?thesis
    using assms(1) by (auto simp: flow_inv_def)
qed

lemma overflow_inv:
  assumes "\<forall>p. 0 < fst (limits st p)" "flow_inv st f" "overflow st f = Inr f1"
  shows "flow_inv st f1 \<and> int (used f1) < fst (limits st (page_idx f1))"
proof (cases "int (used f) \<ge> fst (limits st (page_idx f))")
  case True
  with assms(3) obtain h pv where
    f1: "f1 = f\<lparr>page_idx := page_idx f + 1, used := 0, prov_of := pv\<rparr>"
    by (auto simp: overflow_def Let_def split: sum.splits prod.splits)
  have "0 < fst (limits st (page_idx f + 1))" using assms(1) by blast
  then show ?thesis
    using flow_inv_next_page[OF assms(2), of pv] by (simp add: f1)
next
  case False
  with assms(3) have "f1 = f" by (simp add: overflow_def Let_def)
  with False assms(2) show ?thesis by simp
qed

lemma flow_inv_place:
  assumes "flow_inv st f" "int (used f) < fst (limits st (page_idx f))"
  shows "flow_inv st
           (f\<lparr>prov_of := pv,
              placed := placed f @
                [\<lparr>pl_page = page_idx f, pl_used = used f, pl_el = el, pl_line = ln, pl_kind = k\<rparr>],
              used := used f + 1\<rparr>)"
proof -
  let ?pl = "\<lparr>pl_page = page_idx f, pl_used = used f, pl_el = el, pl_line = ln, pl_kind = k\<rparr>"
  have c: "count_on (placed f) (page_idx f) = used f"
    using assms(1) by (simp add: flow_inv_def)
  have a: "\<forall>pl\<in>set (placed f @ [?pl]).
             int (pl_used pl) < fst (limits st (pl_page pl)) \<and> pl_page pl \<le> page_idx f"
    using assms by (auto simp: flow_inv_def)
  have b: "\<forall>i<length (placed f @ [?pl]).
        pl_used ((placed f @ [?pl]) ! i) =
          count_on (take i (placed f @ [?pl])) (pl_page ((placed f @ [?pl]) ! i))"
  proof (intro allI impI)
    fix i assume i: "i < length (placed f @ [?pl])"
    show "pl_used ((placed f @ [?pl]) ! i) =
          count_on (take i (placed f @ [?pl])) (pl_page ((placed f @ [?pl]) ! i))"
    proof (cases "i < length (placed f)")
      case True
      then show ?thesis using assms(1) by (simp add: flow_inv_def nth_append)
    next
      case False
      with i have "i = length (placed f)" by simp
      then show ?thesis using c by (simp add: nth_append)
    qed
  qed
  have d: "\<forall>p. int (count_on (placed f @ [?pl]) p) \<le> fst (limits st p)"
  proof
    fix p
    show "int (count_on (placed f @ [?pl]) p) \<le> fst (limits st p)"
    proof (cases "p = page_idx f")
      case True
      then show ?thesis using c assms(2) by (simp add: count_on_snoc)
    next
      case False
      then show ?thesis using assms(1) by (simp add: count_on_snoc flow_inv_def)
    qed
  qed
  show ?thesis
    unfolding flow_inv_def using a b d c by (simp add: count_on_snoc)
qed

lemma commit_lines_inv:
  "\<forall>p. 0 < fst (limits st p) \<Longrightarrow> flow_inv st f \<Longrightarrow> commit_lines st k f lns = Inr f'
     \<Longrightarrow> flow_inv st f'"
proof (induction lns arbitrary: f)
  case Nil
  then show ?case by simp
next
  case (Cons ln lns)
  from Cons.prems(3) obtain f1 el pv where
    o: "overflow st f = Inr f1" and
    r: "commit_lines st k
          (f1\<lparr>prov_of := pv\<lparr>doc := add_line_text el ln (doc pv),
                               layer_p2 := add_line_text el ln (layer_p2 pv)\<rparr>,
              placed := placed f1 @
                [\<lparr>pl_page = page_idx f1, pl_used = used f1, pl_el = el, pl_line = ln, pl_kind = k\<rparr>],
              used := used f1 + 1\<rparr>) lns = Inr f'"
    by (auto split: sum.splits prod.splits)
  from overflow_inv[OF Cons.prems(1,2) o]
  have "flow_inv st f1" "int (used f1) < fst (limits st (page_idx f1))" by simp_all
  then have "flow_inv st (f1\<lparr>prov_of := pv\<lparr>doc := add_line_text el ln (doc pv),
                               layer_p2 := add_line_text el ln (layer_p2 pv)\<rparr>,
              placed := placed f1 @
                [\<lparr>pl_page = page_idx f1, pl_used = used f1, pl_el = el, pl_line = ln, pl_kind = k\<rparr>],
              used := used f1 + 1\<rparr>)"
    by (rule flow_inv_place)
  from Cons.IH[OF Cons.prems(1) this r] show ?case .
qed

lemma commit_blocks_inv:
  "\<forall>p. 0 < fst (limits st p) \<Longrightarrow> flow_inv st f \<Longrightarrow> commit_blocks st ind f blocks = Inr f'
     \<Longrightarrow> flow_inv st f'"
proof (induction blocks arbitrary: f)
  case Nil
  then show ?case by simp
next
  case (Cons blk blks)
  show ?case
  proof (cases "blk_type blk = Pagebreak")
    case True
    with Cons.prems(3) obtain pv where
      r: "commit_blocks st ind (f\<lparr>page_idx := page_idx f + 1, used := 0, prov_of := pv\<rparr>) blks = Inr f'"
      by (auto split: sum.splits prod.splits)
    have "0 < fst (limits st (page_idx f + 1))" using Cons.prems(1) by blast
    from Cons.IH[OF Cons.prems(1) flow_inv_next_page[OF Cons.prems(2) this] r] show ?thesis .
  next
    case False
    with Cons.prems(3) obtain f1 where
      l: "commit_lines st (blk_type blk) f (block_lines st ind (page_idx f) blk) = Inr f1" and
      r: "commit_blocks st ind f1 blks = Inr f'"
      by (auto split: sum.splits)
    from Cons.IH[OF Cons.prems(1) commit_lines_inv[OF Cons.prems(1,2) l] r] show ?thesis .
  qed
qed

text \<open>
  In a commit pass that runs to its end, with every \<open>lines_per_page\<close> positive, \<open>used\<close> is
  at every call of \<open>add_line_text\<close> the number of calls made before on the page \<open>page_idx\<close>
  and is less than the \<open>lines_per_page\<close> of that page; so no page index receives more
  calls than its budget.
\<close>

lemma calls_below_budget:
  "\<forall>p. 0 < fst (limits st p) \<Longrightarrow> commit_pass st ind pv blocks = Inr f \<Longrightarrow>
     (\<forall>i<length (placed f).
        pl_used (placed f ! i) = count_on (take i (placed f)) (pl_page (placed f ! i)) \<and>
        int (pl_used (placed f ! i)) < fst (limits st (pl_page (placed f ! i)))) \<and>
     (\<forall>p. int (count_on (placed f) p) \<le> fst (limits st p))"
proof -
  assume pos: "\<forall>p. 0 < fst (limits st p)" and c: "commit_pass st ind pv blocks = Inr f"
  have "\<forall>p. 0 \<le> fst (limits st p)" using pos by (simp add: less_imp_le)
  then have "flow_inv st \<lparr>page_idx = 0, used = 0, prov_of = pv, placed = []\<rparr>"
    by (simp add: flow_inv_def count_on_def)
  from commit_blocks_inv[OF pos this c[unfolded commit_pass_def]]
  have inv: "flow_inv st f" .
  show ?thesis
  proof (intro conjI allI impI)
    fix i assume i: "i < length (placed f)"
    then have "placed f ! i \<in> set (placed f)" by simp
    with inv show "int (pl_used (placed f ! i)) < fst (limits st (pl_page (placed f ! i)))"
      unfolding flow_inv_def by blast
    from inv i show "pl_used (placed f ! i) = count_on (take i (placed f)) (pl_page (placed f ! i))"
      unfolding flow_inv_def by blast
  next
    fix p
    from inv show "int (count_on (placed f) p) \<le> fst (limits st p)"
      unfolding flow_inv_def by blast
  qed
qed

section \<open>Runs of the commit pass on the example document\<close>

lemmas run_eval =
  commit_pass_def block_lines_def overflow_def or_blank_def get_page_def
  find_layer_by_label_def find_text_by_label_def clone_layer_def append_child_def
  page_label_def ex_prov_def ex_doc_def ex_page_layer_def FORMAT_LABEL_def
  lstrip_chars_def FULLWIDTH_SPACE_def text_lines_def Let_def

lemma ex_limits: "limits ex_settings idx = (1, 10)"
  by (simp add: limits_def ex_settings_def get_or_def page_label_def u_def)

lemma ex_commit:
  "commit_pass ex_settings False ex_prov ex_blocks =
     Inr \<lparr>page_idx = 1, used = 1,
          prov_of = ex_prov
            \<lparr>doc := add_line_text 6 (u ''b'') (add_line_text 3 (u ''a'') ex_doc),
             layer_p2 := add_line_text 6 (u ''b'') (ex_page_layer (u ''p2'') 4)\<rparr>,
          placed = [\<lparr>pl_page = 0, pl_used = 0, pl_el = 3, pl_line = u ''a'', pl_kind = P\<rparr>,
                    \<lparr>pl_page = 1, pl_used = 0, pl_el = 6, pl_line = u ''b'', pl_kind = P\<rparr>]\<rparr>"
  by (simp add: ex_blocks_def ex_limits run_eval wrap_eval)

theorem pass_agreement_witness:
  "commit_pass ex_settings False ex_prov ex_blocks =
     Inr \<lparr>page_idx = 1, used = 1,
          prov_of = ex_prov
            \<lparr>doc := add_line_text 6 (u ''b'') (add_line_text 3 (u ''a'') ex_doc),
             layer_p2 := add_line_text 6 (u ''b'') (ex_page_layer (u ''p2'') 4)\<rparr>,
          placed = [\<lparr>pl_page = 0, pl_used = 0, pl_el = 3, pl_line = u ''a'', pl_kind = P\<rparr>,
                    \<lparr>pl_page = 1, pl_used = 0, pl_el = 6, pl_line = u ''b'', pl_kind = P\<rparr>]\<rparr> \<and>
   estimate_required_pages ex_blocks (limits ex_settings) = 2 \<and>
   est_block_pages (limits ex_settings) (0, 0) ex_blocks = [0, 1]"
  using pass_agreement[OF ex_commit] ex_commit by simp

text \<open>
  The source \<open>## a\<close>, \<open>## b\<close>, \<open>## c\<close> with one line per page.  The first two lines go to
  the text elements of \<open>p1\<close> and \<open>p2\<close>.  For the third, \<open>get_page\<close> finds the layer \<open>p3\<close>
  without a text element and has no entry in \<open>pages\<close>, so it copies the layer \<open>p2\<close>, whose
  text element holds the line \<open>b\<close> by then.
\<close>

lemma bug_blocks:
  "parse_markdown (u ''## a'' @ NL # u ''## b'' @ NL # u ''## c'') False NEWPAGE =
     [\<lparr>blk_type = H2, blk_text = u ''a''\<rparr>, \<lparr>blk_type = H2, blk_text = u ''b''\<rparr>,
      \<lparr>blk_type = H2, blk_text = u ''c''\<rparr>]"
  by (simp add: parse_markdown_def u_def NEWPAGE_def NL_def CR_def BSL_def strip_def lstrip_def
      rstrip_def is_space_def h2_match_def is_hash_def)

lemma bug_commit:
  "commit_pass ex_settings False ex_prov
     [\<lparr>blk_type = H2, blk_text = u ''a''\<rparr>, \<lparr>blk_type = H2, blk_text = u ''b''\<rparr>,
      \<lparr>blk_type = H2, blk_text = u ''c''\<rparr>] =
   Inr \<lparr>page_idx = 2, used = 1,
        prov_of =
          \<lparr>doc = add_line_text 18 (u ''c'')
                   (append_child (add_line_text 6 (u ''b'') (add_line_text 3 (u ''a'') ex_doc))
                      (Elem 16 SvgG (Some (u ''layer'')) (Some (u ''p3'')) []
                         [Elem 17 OtherTag None None [] [],
                          Elem 18 SvgText None (Some (u ''p3'')) [u ''b''] []])),
           pages = [(u ''p1'', 3), (u ''p2'', 6), (u ''p3'', 18)],
           layer_p2 = add_line_text 6 (u ''b'') (ex_page_layer (u ''p2'') 4),
           nv_pages = Some 3,
           next_addr = 24\<rparr>,
        placed = [\<lparr>pl_page = 0, pl_used = 0, pl_el = 3, pl_line = u ''a'', pl_kind = H2\<rparr>,
                  \<lparr>pl_page = 1, pl_used = 0, pl_el = 6, pl_line = u ''b'', pl_kind = H2\<rparr>,
                  \<lparr>pl_page = 2, pl_used = 0, pl_el = 18, pl_line = u ''c'', pl_kind = H2\<rparr>]\<rparr>"
  by (simp add: ex_limits run_eval wrap_eval)

text \<open>
  C10.  At every call of \<open>add_line_text\<close> the value of \<open>used\<close> is below the \<open>lines_per_page\<close>
  of the page (\<open>calls_below_budget\<close>), but a page can hold more lines than its budget
  after the run: here every page takes one line, each of the three calls is made with
  \<open>used = 0\<close>, and the text element of the third page, made as a copy of the second and
  not cleared, ends with the two lines \<open>b\<close> and \<open>c\<close>.
\<close>

theorem cloned_page_over_budget:
  "parse_markdown (u ''## a'' @ NL # u ''## b'' @ NL # u ''## c'') False NEWPAGE =
     [\<lparr>blk_type = H2, blk_text = u ''a''\<rparr>, \<lparr>blk_type = H2, blk_text = u ''b''\<rparr>,
      \<lparr>blk_type = H2, blk_text = u ''c''\<rparr>] \<and>
   limits ex_settings 0 = (1, 10) \<and> limits ex_settings 1 = (1, 10) \<and> limits ex_settings 2 = (1, 10) \<and>
   (case commit_pass ex_settings False ex_prov
           (parse_markdown (u ''## a'' @ NL # u ''## b'' @ NL # u ''## c'') False NEWPAGE) of
      Inl e \<Rightarrow> False
    | Inr f \<Rightarrow>
        map (\<lambda>p. (pl_page p, pl_used p, pl_el p, pl_line p)) (placed f) =
          [(0, 0, 3, u ''a''), (1, 0, 6, u ''b''), (2, 0, 18, u ''c'')] \<and>
        text_lines (doc (prov_of f)) 3 = [u ''a''] \<and>
        text_lines (doc (prov_of f)) 6 = [u ''b''] \<and>
        text_lines (doc (prov_of f)) 18 = [u ''b'', u ''c''] \<and>
        int (length (text_lines (doc (prov_of f)) 18)) > fst (limits ex_settings 2))"
  unfolding bug_blocks bug_commit
  by (simp add: ex_limits text_lines_def append_child_def ex_doc_def ex_page_layer_def)

section \<open>The scenario of the specification\<close>

lemmas parse_eval =
  parse_markdown_def u_def NEWPAGE_def NL_def CR_def BSL_def BULLET_def strip_def lstrip_def
  rstrip_def is_space_def h2_match_def li_match_def is_hash_def is_digit_def is_num_end_def
  is_bullet_def is_blank_def

lemma scenario_blocks:
  "parse_markdown scenario_src ind NEWPAGE =
     [\<lparr>blk_type = H2, blk_text = u ''Title''\<rparr>,
      \<lparr>blk_type = P,
       blk_text = NL # u ''Body text'' @ NL # u ''- item one'' @ NL # u ''- item two''\<rparr>,
      \<lparr>blk_type = P, blk_text = []\<rparr>]"
  by (simp add: scenario_src_def parse_eval)

text \<open>
  The parser does not give the five blocks of the scenario: the empty line after the
  heading starts a paragraph, and that paragraph runs to the next blank line, over the
  body line and both bullet lines.
\<close>

theorem scenario_counterexample:
  "parse_markdown scenario_src False NEWPAGE \<noteq>
     [\<lparr>blk_type = H2, blk_text = u ''Title''\<rparr>,
      \<lparr>blk_type = P, blk_text = []\<rparr>,
      \<lparr>blk_type = P, blk_text = u ''Body text''\<rparr>,
      \<lparr>blk_type = LI, blk_text = BULLET # u ''item one''\<rparr>,
      \<lparr>blk_type = LI, blk_text = BULLET # u ''item two''\<rparr>]"
  by (simp add: scenario_blocks)

lemma scenario_wrap:
  "wrap_text_to_cols (u ''Title'') 10 = [u ''Title'']"
  "wrap_text_to_cols (NL # u ''Body text'' @ NL # u ''- item one'' @ NL # u ''- item two'') 10 =
     [[], u ''Body text'', u ''- item one'', u ''- item two'']"
  by (simp_all add: wrap_eval)

lemma scenario_pages:
  assumes "\<forall>idx. limits_func idx = (2, 10)"
  shows "est_blocks limits_func (0, 0) (parse_markdown scenario_src ind NEWPAGE) = (2, 2)"
    and "est_block_pages limits_func (0, 0) (parse_markdown scenario_src ind NEWPAGE) =
           [0, 0, 1, 1, 2, 2]"
  using assms
  by (simp_all add: scenario_blocks est_block_def est_line_def or_blank_def scenario_wrap wrap_empty
      Let_def)

text \<open>
  C3, as the code has it.  Parsing the source of the scenario with the page-break marker
  \<open>\newpage\<close> yields three blocks: the heading \<open>Title\<close>, one paragraph that holds an empty
  line, the body line and both bullet lines, and an empty paragraph.  With two lines and
  ten columns on every page these blocks wrap to six lines; the estimation counts them
  on the pages 1, 1, 2, 2, 3, 3 and asks for three pages, and a commit pass that runs to
  its end places them on those pages: the third line goes to page 2, once page 1 holds
  two lines.
\<close>

theorem scenario:
  "parse_markdown scenario_src ind NEWPAGE =
     [\<lparr>blk_type = H2, blk_text = u ''Title''\<rparr>,
      \<lparr>blk_type = P,
       blk_text = NL # u ''Body text'' @ NL # u ''- item one'' @ NL # u ''- item two''\<rparr>,
      \<lparr>blk_type = P, blk_text = []\<rparr>] \<and>
   wrap_text_to_cols (NL # u ''Body text'' @ NL # u ''- item one'' @ NL # u ''- item two'') 10 =
     [[], u ''Body text'', u ''- item one'', u ''- item two''] \<and>
   ((\<forall>idx. limits st idx = (2, 10)) \<longrightarrow>
      estimate_required_pages (parse_markdown scenario_src ind NEWPAGE) (limits st) = 3 \<and>
      est_block_pages (limits st) (0, 0) (parse_markdown scenario_src ind NEWPAGE) =
        [0, 0, 1, 1, 2, 2] \<and>
      (commit_pass st ind pv (parse_markdown scenario_src ind NEWPAGE) = Inr f \<longrightarrow>
         map pl_page (placed f) = [0, 0, 1, 1, 2, 2] \<and> page_idx f = 2 \<and> used f = 2))"
proof (intro conjI impI)
  show "parse_markdown scenario_src ind NEWPAGE =
     [\<lparr>blk_type = H2, blk_text = u ''Title''\<rparr>,
      \<lparr>blk_type = P,
       blk_text = NL # u ''Body text'' @ NL # u ''- item one'' @ NL # u ''- item two''\<rparr>,
      \<lparr>blk_type = P, blk_text = []\<rparr>]"
    by (rule scenario_blocks)
  show "wrap_text_to_cols (NL # u ''Body text'' @ NL # u ''- item one'' @ NL # u ''- item two'') 10 =
     [[], u ''Body text'', u ''- item one'', u ''- item two'']"
    by (rule scenario_wrap)
next
  assume l: "\<forall>idx. limits st idx = (2, 10)"
  show "estimate_required_pages (parse_markdown scenario_src ind NEWPAGE) (limits st) = 3"
    using scenario_pages(1)[OF l, of ind] by (simp add: estimate_required_pages_def)
  show "est_block_pages (limits st) (0, 0) (parse_markdown scenario_src ind NEWPAGE) =
        [0, 0, 1, 1, 2, 2]"
    by (rule scenario_pages(2)[OF l])
  assume c: "commit_pass st ind pv (parse_markdown scenario_src ind NEWPAGE) = Inr f"
  have e: "(page_idx f, used f) = est_blocks (limits st) (0, 0) (parse_markdown scenario_src ind NEWPAGE) \<and>
        map pl_page (placed f) =
          est_block_pages (limits st) (0, 0) (parse_markdown scenario_src ind NEWPAGE)"
    using commit_blocks_est[OF c[unfolded commit_pass_def]] by simp
  show "map pl_page (placed f) = [0, 0, 1, 1, 2, 2]"
    using e scenario_pages(2)[OF l, of ind] by simp
  show "page_idx f = 2" "used f = 2"
    using e scenario_pages(1)[OF l, of ind] by simp_all
qed

lemma scenario_limits: "limits scenario_settings idx = (2, 10)"
  by (simp add: limits_def scenario_settings_def get_or_def page_label_def u_def)

lemma scenario_commit:
  "\<exists>f. commit_pass scenario_settings False ex_prov (parse_markdown scenario_src False NEWPAGE) = Inr f"
  by (simp add: scenario_blocks scenario_limits run_eval wrap_eval)

theorem scenario_witness:
  "limits scenario_settings 0 = (2, 10) \<and>
   estimate_required_pages (parse_markdown scenario_src False NEWPAGE) (limits scenario_settings) = 3 \<and>
   (case commit_pass scenario_settings False ex_prov (parse_markdown scenario_src False NEWPAGE) of
      Inl e \<Rightarrow> False
    | Inr f \<Rightarrow> map pl_page (placed f) = [0, 0, 1, 1, 2, 2] \<and> page_idx f = 2 \<and> used f = 2)"
proof -
  obtain f where
    c: "commit_pass scenario_settings False ex_prov (parse_markdown scenario_src False NEWPAGE) = Inr f"
    using scenario_commit by blast
  have l: "\<forall>idx. limits scenario_settings idx = (2, 10)"
    by (simp add: scenario_limits)
  from scenario[of False scenario_settings ex_prov f] l c
  have r: "estimate_required_pages (parse_markdown scenario_src False NEWPAGE) (limits scenario_settings) = 3"
    "map pl_page (placed f) = [0, 0, 1, 1, 2, 2] \<and> page_idx f = 2 \<and> used f = 2"
    by blast+
  show ?thesis
    unfolding c using r l by simp
qed

section \<open>Settings that cannot be read\<close>








section \<open>The page provisioner: the same index gives the same element\<close>

lemma find_append_cases:
  "find Q (xs @ ys) = (case find Q xs of None \<Rightarrow> find Q ys | Some x \<Rightarrow> Some x)"
  by (induction xs) simp_all

lemma descendants_children: "descendants e = concat (map (\<lambda>c. c # descendants c) (children e))"
  by (cases e) simp

lemma descendants_append_child:
  "descendants (append_child root c) = descendants root @ c # descendants c"
  by (simp add: append_child_def descendants_children[of root])

lemma shift_addr_sel: "tag (shift_addr n e) = tag e" "groupmode (shift_addr n e) = groupmode e"
  by (cases e; simp)+

lemma clone_layer_is_layer:
  "is_layer src \<Longrightarrow>
     tag (clone_layer n src new_name old new) = SvgG \<and>
     groupmode (clone_layer n src new_name old new) = Some (u ''layer'') \<and>
     label (clone_layer n src new_name old new) = Some new_name"
  by (simp add: clone_layer_def is_layer_def shift_addr_sel Let_def)

lemma pre_text_after_clone:
  assumes "pre_text_of root lab = None" "is_layer src"
    "find_text_by_label (clone_layer n src lab old lab) lab = Some t"
  shows "pre_text_of (append_child root (clone_layer n src lab old lab)) lab =
           (if find_layer_by_label root lab = None then Some t else None)"
proof (cases "find_layer_by_label root lab")
  case None
  then show ?thesis
    using assms(2,3) clone_layer_is_layer[OF assms(2), of n lab old lab]
    by (simp add: pre_text_of_def find_layer_by_label_def descendants_append_child
        find_append_cases)
next
  case (Some L)
  then show ?thesis
    using assms(1)
    by (simp add: pre_text_of_def find_layer_by_label_def descendants_append_child
        find_append_cases)
qed

lemma get_page_again:
  assumes "idx \<le> length (pages s)" "is_layer (layer_p2 s)" "get_page s idx = Inr (h, s')"
  shows "get_page s' idx = Inr (h, s')"
proof (cases "pre_text_of (doc s) (page_label idx)")
  case (Some t)
  with assms(3) have r: "h = addr t"
    "s' = (if idx \<ge> length (pages s) then s\<lparr>pages := pages s @ [(page_label idx, addr t)]\<rparr> else s)"
    by (auto simp: get_page_def pre_text_of_def Let_def)
  have "pre_text_of (doc s') (page_label idx) = Some t"
    using Some r(2) by simp
  moreover have "idx < length (pages s')"
    using assms(1) r(2) by auto
  ultimately show ?thesis
    using r(1) by (simp add: get_page_def pre_text_of_def Let_def)
next
  case None
  with assms(3) obtain pgs where nv: "nv_pages s = Some pgs" "pgs \<noteq> 0"
    by (auto simp: get_page_def pre_text_of_def Let_def split: option.splits if_splits)
  show ?thesis
  proof (cases "idx < length (pages s)")
    case True
    with None nv assms(3) have r: "h = snd (pages s ! idx)" "s' = s\<lparr>nv_pages := Some (max pgs (idx + 1))\<rparr>"
      by (auto simp: get_page_def pre_text_of_def Let_def)
    have "pre_text_of (doc s') (page_label idx) = None"
      using None r(2) by simp
    then show ?thesis
      using r True by (simp add: get_page_def pre_text_of_def Let_def)
  next
    case False
    let ?lab = "page_label idx"
    let ?clone = "clone_layer (next_addr s) (layer_p2 s) ?lab (u ''p2'') ?lab"
    from False None nv assms(3) obtain t where
      t: "find_text_by_label ?clone ?lab = Some t" and
      r: "h = addr t"
         "s' = s\<lparr>nv_pages := Some (max pgs (idx + 1)),
                 doc := append_child (doc s) ?clone,
                 pages := pages s @ [(?lab, addr t)],
                 next_addr := 2 * next_addr s\<rparr>"
      by (auto simp: get_page_def pre_text_of_def Let_def split: option.splits)
    have len: "idx = length (pages s)" using False assms(1) by simp
    have p: "pre_text_of (doc s') ?lab = (if find_layer_by_label (doc s) ?lab = None then Some t else None)"
      using pre_text_after_clone[OF None assms(2) t] r(2) by simp
    show ?thesis
      using p r len by (simp add: get_page_def pre_text_of_def Let_def)
  qed
qed

lemma find_map_option: "find Q (map g xs) = map_option g (find (\<lambda>x. Q (g x)) xs)"
  by (induction xs) simp_all

lemma add_line_text_sel:
  "addr (add_line_text el ln e) = addr e" "tag (add_line_text el ln e) = tag e"
  "groupmode (add_line_text el ln e) = groupmode e" "label (add_line_text el ln e) = label e"
  by (cases e; simp)+

lemma descendants_add_line_text:
  "descendants (add_line_text el ln e) = map (add_line_text el ln) (descendants e)"
proof (induction e)
  case (Elem a t g l ls cs)
  then show ?case
    by (auto simp: map_concat comp_def intro!: arg_cong[where f = concat])
qed

lemma find_layer_add_line_text:
  "find_layer_by_label (add_line_text el ln root) lab =
     map_option (add_line_text el ln) (find_layer_by_label root lab)"
  by (simp add: find_layer_by_label_def descendants_add_line_text find_map_option add_line_text_sel)

lemma find_text_add_line_text:
  "find_text_by_label (add_line_text el ln scope) lab =
     map_option (add_line_text el ln) (find_text_by_label scope lab)"
  by (simp add: find_text_by_label_def descendants_add_line_text find_map_option add_line_text_sel)

lemma pre_text_add_line_text:
  "pre_text_of (add_line_text el ln root) lab = map_option (add_line_text el ln) (pre_text_of root lab)"
  by (simp add: pre_text_of_def find_layer_add_line_text find_text_add_line_text split: option.splits)

lemma is_layer_add_line_text: "is_layer (add_line_text el ln e) = is_layer e"
  by (simp add: is_layer_def add_line_text_sel)

lemma get_page_pages:
  "get_page s idx = Inr (h, s') \<Longrightarrow>
     length (pages s') = (if idx < length (pages s) then length (pages s) else Suc (length (pages s))) \<and>
     layer_p2 s' = layer_p2 s"
  by (auto simp: get_page_def Let_def split: option.splits if_splits)

text \<open>A call that changes nothing gives the same element after a line was added.\<close>

lemma get_page_with_line:
  assumes "get_page s idx = Inr (h, s)"
  shows "get_page (with_line el ln s) idx = Inr (h, with_line el ln s)"
proof -
  have lt: "idx < length (pages s)"
    using get_page_pages[OF assms] by (simp split: if_splits)
  show ?thesis
  proof (cases "pre_text_of (doc s) (page_label idx)")
    case (Some t)
    with assms lt have r: "h = addr t"
      by (auto simp: get_page_def pre_text_of_def Let_def)
    have "pre_text_of (doc (with_line el ln s)) (page_label idx) = Some (add_line_text el ln t)"
      using Some by (simp add: with_line_def pre_text_add_line_text)
    then show ?thesis
      using r lt by (simp add: get_page_def pre_text_of_def Let_def add_line_text_sel with_line_def)
  next
    case None
    with assms obtain pgs where nv: "nv_pages s = Some pgs" "pgs \<noteq> 0"
      by (auto simp: get_page_def pre_text_of_def Let_def split: option.splits if_splits)
    from None nv assms lt have r: "h = snd (pages s ! idx)"
      "s\<lparr>nv_pages := Some (max pgs (idx + 1))\<rparr> = s"
      by (auto simp: get_page_def pre_text_of_def Let_def)
    from r(2) have "nv_pages (s\<lparr>nv_pages := Some (max pgs (idx + 1))\<rparr>) = nv_pages s"
      by simp
    with nv have m: "max pgs (idx + 1) = pgs" by simp
    have "pre_text_of (doc (with_line el ln s)) (page_label idx) = None"
      using None by (simp add: with_line_def pre_text_add_line_text)
    then show ?thesis
      using r(1) lt nv m by (simp add: get_page_def pre_text_of_def Let_def with_line_def)
  qed
qed

text \<open>The commit pass keeps an entry in \<open>pages\<close> for the current page.\<close>

lemma overflow_run_ok:
  assumes "run_ok f" "overflow st f = Inr f1"
  shows "run_ok f1"
proof (cases "int (used f) \<ge> fst (limits st (page_idx f))")
  case True
  with assms(2) obtain h pv where
    g: "get_page (prov_of f) (page_idx f + 1) = Inr (h, pv)" and
    f1: "f1 = f\<lparr>page_idx := page_idx f + 1, used := 0, prov_of := pv\<rparr>"
    by (auto simp: overflow_def Let_def split: sum.splits prod.splits)
  from get_page_pages[OF g] assms(1) show ?thesis
    by (auto simp: run_ok_def f1 split: if_splits)
next
  case False
  with assms show ?thesis by (simp add: overflow_def Let_def)
qed

lemma commit_lines_run_ok:
  "run_ok f \<Longrightarrow> commit_lines st k f lns = Inr f' \<Longrightarrow> run_ok f'"
proof (induction lns arbitrary: f)
  case Nil
  then show ?case by simp
next
  case (Cons ln lns)
  from Cons.prems(2) obtain f1 el pv where
    o: "overflow st f = Inr f1" and
    g: "get_page (prov_of f1) (page_idx f1) = Inr (el, pv)" and
    r: "commit_lines st k
          (f1\<lparr>prov_of := pv\<lparr>doc := add_line_text el ln (doc pv),
                               layer_p2 := add_line_text el ln (layer_p2 pv)\<rparr>,
              placed := placed f1 @
                [\<lparr>pl_page = page_idx f1, pl_used = used f1, pl_el = el, pl_line = ln, pl_kind = k\<rparr>],
              used := used f1 + 1\<rparr>) lns = Inr f'"
    by (auto split: sum.splits prod.splits)
  have "run_ok f1" using Cons.prems(1) o by (rule overflow_run_ok)
  with get_page_pages[OF g]
  have "run_ok (f1\<lparr>prov_of := pv\<lparr>doc := add_line_text el ln (doc pv),
                               layer_p2 := add_line_text el ln (layer_p2 pv)\<rparr>,
              placed := placed f1 @
                [\<lparr>pl_page = page_idx f1, pl_used = used f1, pl_el = el, pl_line = ln, pl_kind = k\<rparr>],
              used := used f1 + 1\<rparr>)"
    by (auto simp: run_ok_def is_layer_add_line_text split: if_splits)
  from Cons.IH[OF this r] show ?case .
qed

lemma commit_blocks_run_ok:
  "run_ok f \<Longrightarrow> commit_blocks st ind f blocks = Inr f' \<Longrightarrow> run_ok f'"
proof (induction blocks arbitrary: f)
  case Nil
  then show ?case by simp
next
  case (Cons blk blks)
  show ?case
  proof (cases "blk_type blk = Pagebreak")
    case True
    with Cons.prems(2) obtain h pv where
      g: "get_page (prov_of f) (page_idx f + 1) = Inr (h, pv)" and
      r: "commit_blocks st ind (f\<lparr>page_idx := page_idx f + 1, used := 0, prov_of := pv\<rparr>) blks = Inr f'"
      by (auto split: sum.splits prod.splits)
    from get_page_pages[OF g] Cons.prems(1)
    have "run_ok (f\<lparr>page_idx := page_idx f + 1, used := 0, prov_of := pv\<rparr>)"
      by (auto simp: run_ok_def split: if_splits)
    from Cons.IH[OF this r] show ?thesis .
  next
    case False
    with Cons.prems(2) obtain f1 where
      l: "commit_lines st (blk_type blk) f (block_lines st ind (page_idx f) blk) = Inr f1" and
      r: "commit_blocks st ind f1 blks = Inr f'"
      by (auto split: sum.splits)
    from Cons.IH[OF commit_lines_run_ok[OF Cons.prems(1) l] r] show ?thesis .
  qed
qed

text \<open>
  C8.  Within one run, two calls of \<open>get_page\<close> with the same index give the same
  element, and the second call creates nothing: when a call in a state with an entry in
  \<open>pages\<close> for every page before \<open>idx\<close> and with a layer as \<open>layer_p2\<close> returns the element
  \<open>h\<close>, a second call returns \<open>h\<close> and leaves the document, \<open>pages\<close> and the physical pages
  as they are, also when a line was appended to an element in between.  The states of
  the commit pass are such states: \<open>run_ok\<close> holds for the first state of the pass (page 1,
  with \<open>p1\<close> and \<open>p2\<close> in \<open>pages\<close>) and at the head of both loops, where \<open>get_page\<close> is called
  with the current index or the next.
\<close>

theorem get_page_idempotent:
  "(idx \<le> length (pages s) \<and> is_layer (layer_p2 s) \<and> get_page s idx = Inr (h, s') \<longrightarrow>
      get_page s' idx = Inr (h, s') \<and>
      get_page (with_line el ln s') idx = Inr (h, with_line el ln s')) \<and>
   (run_ok f \<and> commit_lines st k f lns = Inr f' \<longrightarrow> run_ok f') \<and>
   (run_ok f \<and> commit_blocks st ind f blocks = Inr f'' \<longrightarrow> run_ok f'') \<and>
   (run_ok f \<longrightarrow>
      page_idx f \<le> length (pages (prov_of f)) \<and> page_idx f + 1 \<le> length (pages (prov_of f)) \<and>
      is_layer (layer_p2 (prov_of f))) \<and>
   (0 < length (pages pv) \<and> is_layer (layer_p2 pv) \<longrightarrow>
      run_ok \<lparr>page_idx = 0, used = 0, prov_of = pv, placed = []\<rparr>)"
proof (intro conjI impI)
  assume a: "idx \<le> length (pages s) \<and> is_layer (layer_p2 s) \<and> get_page s idx = Inr (h, s')"
  then show again: "get_page s' idx = Inr (h, s')"
    using get_page_again by blast
  then show "get_page (with_line el ln s') idx = Inr (h, with_line el ln s')"
    by (rule get_page_with_line)
next
  assume "run_ok f \<and> commit_lines st k f lns = Inr f'"
  then show "run_ok f'" using commit_lines_run_ok by blast
next
  assume "run_ok f \<and> commit_blocks st ind f blocks = Inr f''"
  then show "run_ok f''" using commit_blocks_run_ok by blast
next
  assume "run_ok f"
  then show "page_idx f \<le> length (pages (prov_of f))"
    "page_idx f + 1 \<le> length (pages (prov_of f))" "is_layer (layer_p2 (prov_of f))"
    by (simp_all add: run_ok_def)
next
  assume "0 < length (pages pv) \<and> is_layer (layer_p2 pv)"
  then show "run_ok \<lparr>page_idx = 0, used = 0, prov_of = pv, placed = []\<rparr>"
    by (simp add: run_ok_def)
qed

lemma ex_get_page_2:
  "get_page ex_prov 2 =
     Inr (18, ex_prov
            \<lparr>nv_pages := Some 3,
             doc := append_child ex_doc
                      (Elem 16 SvgG (Some (u ''layer'')) (Some (u ''p3'')) []
                         [Elem 17 OtherTag None None [] [],
                          Elem 18 SvgText None (Some (u ''p3'')) [] []]),
             pages := [(u ''p1'', 3), (u ''p2'', 6), (u ''p3'', 18)],
             next_addr := 24\<rparr>)"
  by (simp add: run_eval u_def)

theorem get_page_idempotent_witness:
  "2 \<le> length (pages ex_prov) \<and> is_layer (layer_p2 ex_prov) \<and>
   run_ok \<lparr>page_idx = 0, used = 0, prov_of = ex_prov, placed = []\<rparr> \<and>
   (case get_page ex_prov 2 of
      Inl e \<Rightarrow> False
    | Inr (h, s') \<Rightarrow>
        h = 18 \<and> get_page s' 2 = Inr (18, s') \<and>
        get_page (with_line 18 (u ''c'') s') 2 = Inr (18, with_line 18 (u ''c'') s')) \<and>
   (case commit_pass ex_settings False ex_prov ex_blocks of
      Inl e \<Rightarrow> False
    | Inr f \<Rightarrow>
        run_ok f \<and> page_idx f + 1 \<le> length (pages (prov_of f)) \<and>
        is_layer (layer_p2 (prov_of f))) \<and>
   (case commit_lines ex_settings P \<lparr>page_idx = 0, used = 0, prov_of = ex_prov, placed = []\<rparr>
           [u ''a''] of
      Inl e \<Rightarrow> False
    | Inr f \<Rightarrow> run_ok f)"
proof -
  have a: "2 \<le> length (pages ex_prov) \<and> is_layer (layer_p2 ex_prov)"
    by (simp add: ex_prov_def ex_page_layer_def is_layer_def)
  have b: "0 < length (pages ex_prov) \<and> is_layer (layer_p2 ex_prov)"
    by (simp add: ex_prov_def ex_page_layer_def is_layer_def)
  let ?f0 = "\<lparr>page_idx = 0, used = 0, prov_of = ex_prov, placed = []\<rparr>"
  have r0: "run_ok ?f0"
    using b get_page_idempotent[where pv = ex_prov] by blast
  obtain f where c: "commit_blocks ex_settings False ?f0 ex_blocks = Inr f"
    using ex_commit by (simp add: commit_pass_def)
  have rf: "run_ok f"
    using r0 c get_page_idempotent[where f = ?f0 and st = ex_settings and ind = False
        and blocks = ex_blocks and f'' = f] by blast
  have rf': "page_idx f + 1 \<le> length (pages (prov_of f)) \<and> is_layer (layer_p2 (prov_of f))"
    using rf get_page_idempotent[where f = f] by blast
  have "\<exists>f1. commit_lines ex_settings P ?f0 [u ''a''] = Inr f1"
    by (simp add: ex_limits run_eval u_def)
  then obtain f1 where c1: "commit_lines ex_settings P ?f0 [u ''a''] = Inr f1"
    by blast
  have rf1: "run_ok f1"
    using r0 c1 get_page_idempotent[where f = ?f0 and st = ex_settings and k = P
        and lns = "[u ''a'']" and f' = f1] by blast
  obtain s' where g: "get_page ex_prov 2 = Inr (18, s')"
    using ex_get_page_2 by blast
  have i: "get_page s' 2 = Inr (18, s') \<and>
           get_page (with_line 18 (u ''c'') s') 2 = Inr (18, with_line 18 (u ''c'') s')"
    using a g get_page_idempotent[where idx = 2 and s = ex_prov and h = 18 and s' = s'
        and el = 18 and ln = "u ''c''"] by blast
  show ?thesis
    unfolding commit_pass_def c c1 g using a r0 rf rf' rf1 i by simp
qed

end
